theory Spec2Isabelle
  imports Main "HOL-Library.Sublist"
begin

section \<open>The Flickr library downloader (\<open>flickr_PAD.py\<close>)\<close>

text \<open>
  A shallow embedding of \<open>FlickrDownloader\<close> and \<open>main\<close>. Everything outside the
  process is a parameter: the remote service and the network are the record \<open>env\<close>
  (what each call returns or raises), the local file system is part of the record
  \<open>machine\<close> (the photo directory, the metadata directory, the state file, the log
  file, the directories). Python's mutation is explicit state passing.

  Modelling decisions:
  \<^item> The exceptions of class \<open>Exception\<close> are the datatype \<open>exn\<close>: a
    \<open>flickrapi.exceptions.FlickrError\<close> or any other one, each with its \<open>str()\<close>.
    \<open>KeyboardInterrupt\<close> is not an \<open>Exception\<close>; it is an outcome of its own and
    arrives during the sleep that follows a photo (\<open>sigint\<close>).
  \<^item> Local file operations (\<open>open\<close>, \<open>json.dump\<close>, \<open>exists\<close>, \<open>mkdir\<close>) and
    look-ups in the documents the service returns do not raise.
  \<^item> A photo of a listing page is a record of the keys the code reads; an absent key is
    \<open>None\<close>. The documents of the three metadata queries are opaque strings.
  \<^item> A log line is a constructor of \<open>log_msg\<close> carrying the values the f-string
    formats; the timestamp and the console copy are left out.
  \<^item> Strings are lists of characters, one \<open>char\<close> for each character of the
    Python string.
\<close>

subsection \<open>Data\<close>

datatype exn = FlickrError string | OtherError string

datatype outcome = Normal | KeyboardInterrupt | Raised exn

record photo =
  pid :: string
  title :: "string option"
  url_o :: "string option"
  url_k :: "string option"
  url_h :: "string option"
  url_l :: "string option"
  url_c :: "string option"
  urls :: "string list option"
  originalformat :: "string option"
  media :: "string option"

record page_data =
  total :: int
  pages :: int
  photo :: "photo list"

record metadata =
  info :: string
  exif :: "string option"
  comments :: "string option"
  list_info :: "photo option"

text \<open>
  What \<open>requests.get\<close> and the streaming loop do for one URL: the whole body is
  written; or an exception is raised before \<open>open(filepath, 'wb')\<close> (the request, the
  status check); or one is raised after it, while chunks are written.
\<close>

datatype transfer = Transferred | ErrorBeforeOpen exn | ErrorAfterOpen exn

datatype asset = Complete string | Partial string

record env =
  token_valid :: bool
  authenticate_via_browser :: "exn option"
  login :: "exn + (string \<times> string)"
  getPhotos :: "int \<Rightarrow> exn + page_data"
  getInfo :: "string \<Rightarrow> exn + string"
  getExif :: "string \<Rightarrow> exn + string"
  getComments :: "string \<Rightarrow> exn + string"
  requests_get :: "string \<Rightarrow> transfer"
  sigint :: "string \<Rightarrow> bool"

record checkpoint =
  last_page :: int
  downloaded :: "string list"
  failed :: "string list"

record statistics =
  n_downloaded :: int
  n_failed :: int
  n_skipped :: int
  n_total :: int

datatype log_msg =
    Rule
  | StartingDownload
  | TargetDirectory
  | ResumingFromPage int
  | PreviouslyDownloaded int
  | FetchingPhotoList
  | TotalPhotos int
  | TotalPages int
  | Dashes
  | ProcessingPage int int
  | FoundPhotos int
  | SkippingProcessed string
  | PhotoProgress int int string string
  | WarnNoMetadata string
  | WarnNoUrl string
  | PageComplete int
  | PageCounters int int int
  | ErrorOnPage int exn
  | SavingStateAndContinuing
  | DownloadComplete
  | SuccessfullyDownloaded int
  | SkippedExisted int
  | FailedCount int
  | PhotosSavedTo
  | MetadataSavedTo
  | WarnExif string exn
  | WarnComments string exn
  | ErrorGettingMetadata string exn
  | SkippingExisting string
  | Downloading string
  | Success string
  | FailedToDownload string exn
  | Authenticating
  | NoValidToken
  | AuthenticationSuccessful
  | LoggedInAs string string
  | InterruptedByUser
  | RunAgainToResume
  | FatalError exn
  | Traceback

record machine =
  state :: checkpoint
  stats :: statistics
  user_id :: "string option"
  photos_dir :: "string \<rightharpoonup> asset"
  metadata_dir :: "string \<rightharpoonup> metadata"
  state_file :: "checkpoint option"
  log_file :: "log_msg list"
  dirs :: "string set"
  slept :: "nat list"

record config =
  api_key :: string
  api_secret :: string

subsection \<open>Module level\<close>

definition API_KEY :: string where
  "API_KEY = ''YOUR_KEY''"

definition API_SECRET :: string where
  "API_SECRET = ''YOUR_SECRET''"

definition DOWNLOAD_DIR :: string where
  "DOWNLOAD_DIR = ''/YOURFOLDERPATH''"

definition METADATA_DIR :: string where
  "METADATA_DIR = DOWNLOAD_DIR @ ''/metadata''"

definition PHOTOS_DIR :: string where
  "PHOTOS_DIR = DOWNLOAD_DIR @ ''/photos''"

definition mkdir :: "string \<Rightarrow> machine \<Rightarrow> machine" where
  "mkdir d m = m\<lparr>dirs := insert d (dirs m)\<rparr>"

text \<open>The three \<open>mkdir(exist_ok=True)\<close> calls that run when the module is loaded.\<close>

definition create_directories :: "machine \<Rightarrow> machine" where
  "create_directories m = mkdir PHOTOS_DIR (mkdir METADATA_DIR (mkdir DOWNLOAD_DIR m))"

text \<open>\<open>FlickrDownloader.__init__\<close>: the counters start at zero.\<close>

definition init :: "machine \<Rightarrow> machine" where
  "init m = m\<lparr>user_id := None,
     stats := \<lparr>n_downloaded = 0, n_failed = 0, n_skipped = 0, n_total = 0\<rparr>\<rparr>"

subsection \<open>Strings\<close>

fun str :: "exn \<Rightarrow> string" where
  "str (FlickrError msg) = msg"
| "str (OtherError msg) = msg"

definition lower_char :: "char \<Rightarrow> char" where
  "lower_char c =
     (case map_of (zip ''ABCDEFGHIJKLMNOPQRSTUVWXYZ'' ''abcdefghijklmnopqrstuvwxyz'') c of
        Some l \<Rightarrow> l
      | None \<Rightarrow> c)"

definition lower :: "string \<Rightarrow> string" where
  "lower s = map lower_char s"

fun startswith :: "string \<Rightarrow> string \<Rightarrow> bool" where
  "startswith s [] = True"
| "startswith [] (p # ps) = False"
| "startswith (c # cs) (p # ps) = (c = p \<and> startswith cs ps)"

text \<open>\<open>contains sub s\<close> is Python's \<open>sub in s\<close>.\<close>

fun contains :: "string \<Rightarrow> string \<Rightarrow> bool" where
  "contains sub [] = (sub = [])"
| "contains sub (c # cs) = (startswith (c # cs) sub \<or> contains sub cs)"

text \<open>The character class \<open>[<>:"/\\|?*]\<close> of \<open>sanitize_filename\<close>.\<close>

definition invalid_chars :: "char list" where
  "invalid_chars =
     [CHR ''<'', CHR ''>'', CHR '':'', CHR 0x22, CHR ''/'', CHR 0x5C, CHR ''|'', CHR ''?'',
      CHR ''*'']"

definition sanitize_filename :: "string \<Rightarrow> string" where
  "sanitize_filename filename =
     take 200 (map (\<lambda>c. if c \<in> set invalid_chars then CHR ''_'' else c) filename)"

subsection \<open>Log and checkpoint store\<close>

definition log :: "log_msg \<Rightarrow> machine \<Rightarrow> machine" where
  "log msg m = m\<lparr>log_file := log_file m @ [msg]\<rparr>"

definition load_state :: "machine \<Rightarrow> checkpoint" where
  "load_state m =
     (case state_file m of
        Some s \<Rightarrow> s
      | None \<Rightarrow> \<lparr>last_page = 0, downloaded = [], failed = []\<rparr>)"

definition save_state :: "checkpoint \<Rightarrow> machine \<Rightarrow> machine" where
  "save_state s m = m\<lparr>state_file := Some s\<rparr>"

text \<open>\<open>time.sleep\<close>, in milliseconds.\<close>

definition sleep :: "nat \<Rightarrow> machine \<Rightarrow> machine" where
  "sleep ms m = m\<lparr>slept := slept m @ [ms]\<rparr>"

subsection \<open>Authentication\<close>

definition authenticate :: "env \<Rightarrow> machine \<Rightarrow> outcome \<times> machine" where
  "authenticate e m =
     (let m1 = log Authenticating m in
      case (if \<not> token_valid e
            then (authenticate_via_browser e, log NoValidToken m1)
            else (None, m1)) of
        (Some x, m2) \<Rightarrow> (Raised x, m2)
      | (None, m2) \<Rightarrow>
          (let m3 = log AuthenticationSuccessful m2 in
           case login e of
             Inl x \<Rightarrow> (Raised x, m3)
           | Inr (uid, username) \<Rightarrow>
               (Normal, log (LoggedInAs username uid) (m3\<lparr>user_id := Some uid\<rparr>))))"

subsection \<open>Metadata aggregator\<close>

text \<open>
  The two inner \<open>try\<close> blocks catch \<open>FlickrError\<close> only; the outer one catches every
  \<open>Exception\<close>, logs it and returns \<open>None\<close>.
\<close>

definition get_photo_metadata :: "env \<Rightarrow> string \<Rightarrow> machine \<Rightarrow> metadata option \<times> machine" where
  "get_photo_metadata e photo_id m =
     (case getInfo e photo_id of
        Inl x \<Rightarrow> (None, log (ErrorGettingMetadata photo_id x) m)
      | Inr i \<Rightarrow>
          (case (case getExif e photo_id of
                   Inr ex \<Rightarrow> Inr (Some ex, m)
                 | Inl (FlickrError msg) \<Rightarrow>
                     Inr (None,
                       if \<not> contains ''not found'' (lower (str (FlickrError msg)))
                       then log (WarnExif photo_id (FlickrError msg)) m else m)
                 | Inl (OtherError msg) \<Rightarrow> Inl (OtherError msg)) of
             Inl x \<Rightarrow> (None, log (ErrorGettingMetadata photo_id x) m)
           | Inr (ex, m1) \<Rightarrow>
               (case (case getComments e photo_id of
                        Inr c \<Rightarrow> Inr (Some c, m1)
                      | Inl (FlickrError msg) \<Rightarrow>
                          Inr (None,
                            if \<not> contains ''not found'' (lower (str (FlickrError msg)))
                            then log (WarnComments photo_id (FlickrError msg)) m1 else m1)
                      | Inl (OtherError msg) \<Rightarrow> Inl (OtherError msg)) of
                  Inl x \<Rightarrow> (None, log (ErrorGettingMetadata photo_id x) m1)
                | Inr (c, m2) \<Rightarrow>
                    (Some \<lparr>info = i, exif = ex, comments = c, list_info = None\<rparr>, m2))))"

definition save_metadata :: "string \<Rightarrow> metadata \<Rightarrow> machine \<Rightarrow> machine" where
  "save_metadata photo_id md m = m\<lparr>metadata_dir := (metadata_dir m)(photo_id \<mapsto> md)\<rparr>"

subsection \<open>Content fetcher\<close>

definition exists :: "string \<Rightarrow> machine \<Rightarrow> bool" where
  "exists filename m = (photos_dir m filename \<noteq> None)"

definition download_photo :: "env \<Rightarrow> string \<Rightarrow> string \<Rightarrow> string \<Rightarrow> machine \<Rightarrow> bool \<times> machine" where
  "download_photo e photo_id url filename m =
     (if exists filename m
      then (True, (log (SkippingExisting filename) m)
                    \<lparr>stats := (stats m)\<lparr>n_skipped := n_skipped (stats m) + 1\<rparr>\<rparr>)
      else
        (let m1 = log (Downloading filename) m in
         case requests_get e url of
           Transferred \<Rightarrow>
             (True, (log (Success filename)
                       (m1\<lparr>photos_dir := (photos_dir m1)(filename \<mapsto> Complete url)\<rparr>))
                      \<lparr>stats := (stats m)\<lparr>n_downloaded := n_downloaded (stats m) + 1\<rparr>\<rparr>)
         | ErrorBeforeOpen x \<Rightarrow>
             (False, (log (FailedToDownload filename x) m1)
                       \<lparr>stats := (stats m)\<lparr>n_failed := n_failed (stats m) + 1\<rparr>\<rparr>)
         | ErrorAfterOpen x \<Rightarrow>
             (False, (log (FailedToDownload filename x)
                        (m1\<lparr>photos_dir := (photos_dir m1)(filename \<mapsto> Partial url)\<rparr>))
                       \<lparr>stats := (stats m)\<lparr>n_failed := n_failed (stats m) + 1\<rparr>\<rparr>)))"

text \<open>
  The listing record stands for \<open>photo_info['photo']\<close>. The first key present among the
  five size keys wins, whatever its value; \<open>urls\<close> is the list of the \<open>_content\<close> values
  of \<open>photo['urls']['url']\<close> when that is a list.
\<close>

definition get_download_url :: "photo \<Rightarrow> string option" where
  "get_download_url p =
     (case url_o p of Some u \<Rightarrow> Some u | None \<Rightarrow>
     (case url_k p of Some u \<Rightarrow> Some u | None \<Rightarrow>
     (case url_h p of Some u \<Rightarrow> Some u | None \<Rightarrow>
     (case url_l p of Some u \<Rightarrow> Some u | None \<Rightarrow>
     (case url_c p of Some u \<Rightarrow> Some u | None \<Rightarrow>
     (case urls p of Some (u # us) \<Rightarrow> Some u | _ \<Rightarrow> None))))))"

definition get_file_extension :: "photo \<Rightarrow> string" where
  "get_file_extension p =
     (case originalformat p of
        Some f \<Rightarrow> f
      | None \<Rightarrow> if media p = Some ''video'' then ''mp4'' else ''jpg'')"

text \<open>The f-string \<open>f"{photo_id}_{safe_title}.{extension}"\<close>.\<close>

definition make_filename :: "string \<Rightarrow> string \<Rightarrow> string \<Rightarrow> string" where
  "make_filename photo_id safe_title extension =
     photo_id @ ''_'' @ safe_title @ ''.'' @ extension"

subsection \<open>Sync orchestrator\<close>

text \<open>
  The body of the loop over the photos of a page. \<open>if url:\<close> is false for \<open>None\<close> and
  for the empty string. The outcome is \<open>KeyboardInterrupt\<close> when the signal arrives in
  the half-second sleep after the photo.
\<close>

definition process_photo :: "env \<Rightarrow> int \<Rightarrow> int \<Rightarrow> int \<Rightarrow> photo \<Rightarrow> machine \<Rightarrow> outcome \<times> machine" where
  "process_photo e page total_photos i p m =
     (let photo_id = pid p;
          ttl = (case title p of Some t \<Rightarrow> t | None \<Rightarrow> ''untitled'')
      in
      if photo_id \<in> set (downloaded (state m))
      then (Normal, log (SkippingProcessed photo_id) m)
      else
        (let progress = int (length (downloaded (state m))) + i;
             m1 = log (PhotoProgress progress total_photos photo_id ttl) m;
             (md, m2) = get_photo_metadata e photo_id m1;
             m3 = (case md of
                     Some d \<Rightarrow> save_metadata photo_id (d\<lparr>list_info := Some p\<rparr>) m2
                   | None \<Rightarrow> log (WarnNoMetadata photo_id) m2);
             m4 = (case get_download_url p of
                     Some (c # cs) \<Rightarrow>
                       (let safe_title = sanitize_filename ttl;
                            extension = get_file_extension p;
                            filename = make_filename photo_id safe_title extension;
                            (success, m') = download_photo e photo_id (c # cs) filename m3
                        in
                        if success \<or> exists filename m'
                        then m'\<lparr>state := (state m')\<lparr>downloaded := downloaded (state m') @ [photo_id]\<rparr>\<rparr>
                        else m'\<lparr>state := (state m')\<lparr>failed := failed (state m') @ [photo_id]\<rparr>\<rparr>)
                   | _ \<Rightarrow>
                       (let m' = log (WarnNoUrl photo_id) m3 in
                        m'\<lparr>state := (state m')\<lparr>failed := failed (state m') @ [photo_id]\<rparr>\<rparr>));
             m5 = m4\<lparr>state := (state m4)\<lparr>last_page := page\<rparr>\<rparr>;
             m6 = save_state (state m5) m5;
             m7 = sleep 500 m6
         in
         if sigint e photo_id then (KeyboardInterrupt, m7) else (Normal, m7)))"

text \<open>\<open>for i, photo in enumerate(photos, 1)\<close>.\<close>

fun process_photos :: "env \<Rightarrow> int \<Rightarrow> int \<Rightarrow> int \<Rightarrow> photo list \<Rightarrow> machine \<Rightarrow> outcome \<times> machine" where
  "process_photos e page total_photos i [] m = (Normal, m)"
| "process_photos e page total_photos i (p # ps) m =
     (case process_photo e page total_photos i p m of
        (Normal, m') \<Rightarrow> process_photos e page total_photos (i + 1) ps m'
      | (out, m') \<Rightarrow> (out, m'))"

text \<open>
  The page the loop works on: the first page already fetched when the run starts at
  page 1, a new request otherwise.
\<close>

definition page_request :: "env \<Rightarrow> int \<Rightarrow> page_data \<Rightarrow> int \<Rightarrow> exn + page_data" where
  "page_request e start_page first_page page =
     (if page = 1 \<and> start_page = 1 then Inr first_page else getPhotos e page)"

text \<open>
  The body of the loop over the pages: the \<open>try\<close> block and its \<open>except Exception\<close>
  handler. Under the modelling decisions above the page request is the one statement
  of the block that raises an \<open>Exception\<close>.
\<close>

definition process_page ::
  "env \<Rightarrow> int \<Rightarrow> page_data \<Rightarrow> int \<Rightarrow> int \<Rightarrow> int \<Rightarrow> machine \<Rightarrow> outcome \<times> machine" where
  "process_page e start_page first_page total_photos total_pages page m =
     (let m1 = log (ProcessingPage page total_pages) (log Dashes m) in
      case page_request e start_page first_page page of
        Inr pd \<Rightarrow>
          (let photos = photo pd;
               m2 = log (FoundPhotos (int (length photos))) m1
           in
           case process_photos e page total_photos 1 photos m2 of
             (Normal, m3) \<Rightarrow>
               (Normal,
                log (PageCounters (n_downloaded (stats m3)) (n_skipped (stats m3))
                       (n_failed (stats m3)))
                  (log (PageComplete page) m3))
           | (out, m3) \<Rightarrow> (out, m3))
      | Inl x \<Rightarrow>
          (let m2 = log SavingStateAndContinuing (log (ErrorOnPage page x) m1);
               m3 = m2\<lparr>state := (state m2)\<lparr>last_page := page - 1\<rparr>\<rparr>;
               m4 = save_state (state m3) m3
           in (Normal, sleep 5000 m4)))"

text \<open>
  \<open>for page in range(start_page, total_pages + 1)\<close>, with \<open>page\<close> the next value of
  the range: the range is fixed when the loop starts, so an assignment to
  \<open>state['last_page']\<close> does not change the pages visited.
\<close>

function pages_loop ::
  "env \<Rightarrow> int \<Rightarrow> page_data \<Rightarrow> int \<Rightarrow> int \<Rightarrow> int \<Rightarrow> machine \<Rightarrow> outcome \<times> machine" where
  "pages_loop e start_page first_page total_photos total_pages page m =
     (if page < total_pages + 1
      then (case process_page e start_page first_page total_photos total_pages page m of
              (Normal, m') \<Rightarrow>
                pages_loop e start_page first_page total_photos total_pages (page + 1) m'
            | (out, m') \<Rightarrow> (out, m'))
      else (Normal, m))"
  by pat_completeness auto
termination
  by (relation "measure (\<lambda>(e, start_page, first_page, total_photos, total_pages, page, m).
        nat (total_pages + 1 - page))") auto

declare pages_loop.simps [simp del]

definition download_library :: "env \<Rightarrow> machine \<Rightarrow> outcome \<times> machine" where
  "download_library e m =
     (let m1 = log Rule (log TargetDirectory (log StartingDownload (log Rule m)));
          m2 = m1\<lparr>state := load_state m1\<rparr>;
          start_page = last_page (state m2) + 1;
          m3 = (if start_page > 1
                then log (PreviouslyDownloaded (int (length (downloaded (state m2)))))
                       (log (ResumingFromPage start_page) m2)
                else m2);
          m4 = log FetchingPhotoList m3
      in
      case getPhotos e 1 of
        Inl x \<Rightarrow> (Raised x, m4)
      | Inr first_page \<Rightarrow>
          (let total_photos = total first_page;
               total_pages = pages first_page;
               m5 = log (TotalPages total_pages) (log (TotalPhotos total_photos) m4);
               m6 = m5\<lparr>stats := (stats m5)\<lparr>n_total := total_photos\<rparr>\<rparr>
           in
           case pages_loop e start_page first_page total_photos total_pages start_page m6 of
             (Normal, m7) \<Rightarrow>
               (Normal,
                log Rule (log MetadataSavedTo (log PhotosSavedTo
                  (log (FailedCount (n_failed (stats m7)))
                  (log (SkippedExisted (n_skipped (stats m7)))
                  (log (SuccessfullyDownloaded (n_downloaded (stats m7)))
                  (log (TotalPhotos (n_total (stats m7)))
                  (log DownloadComplete (log Rule m7)))))))))
           | (out, m7) \<Rightarrow> (out, m7)))"

subsection \<open>Entry point\<close>

text \<open>
  \<open>main\<close> returns the exit code. The two \<open>import\<close> statements of its dependency check
  name modules the file has already imported, so they succeed.
\<close>

definition main :: "config \<Rightarrow> env \<Rightarrow> machine \<Rightarrow> nat \<times> machine" where
  "main cfg e m =
     (if api_key cfg = ''YOUR_API_KEY_HERE'' \<or> api_secret cfg = ''YOUR_API_SECRET_HERE''
      then (1, m)
      else
        (let m0 = init m in
         case (case authenticate e m0 of
                 (Normal, m1) \<Rightarrow> download_library e m1
               | (out, m1) \<Rightarrow> (out, m1)) of
           (Normal, m2) \<Rightarrow> (0, m2)
         | (KeyboardInterrupt, m2) \<Rightarrow> (0, log RunAgainToResume (log InterruptedByUser m2))
         | (Raised x, m2) \<Rightarrow> (1, log Traceback (log (FatalError x) m2))))"

text \<open>Running the file: the module level, then \<open>main()\<close>.\<close>

definition script :: "config \<Rightarrow> env \<Rightarrow> machine \<Rightarrow> nat \<times> machine" where
  "script cfg e m = main cfg e (create_directories m)"

text \<open>The file as it is, with the credentials it is shipped with.\<close>

definition shipped :: config where
  "shipped = \<lparr>api_key = API_KEY, api_secret = API_SECRET\<rparr>"

subsection \<open>Notions used in the statements\<close>

text \<open>The machine with which \<open>download_library\<close> enters the loop over the pages, for the
  first page \<open>fp\<close>.\<close>

definition at_loop :: "page_data \<Rightarrow> machine \<Rightarrow> machine" where
  "at_loop fp m =
     (let m1 = log Rule (log TargetDirectory (log StartingDownload (log Rule m)));
          m2 = m1\<lparr>state := load_state m1\<rparr>;
          start_page = last_page (state m2) + 1;
          m3 = (if start_page > 1
                then log (PreviouslyDownloaded (int (length (downloaded (state m2)))))
                       (log (ResumingFromPage start_page) m2)
                else m2);
          m4 = log FetchingPhotoList m3;
          m5 = log (TotalPages (pages fp)) (log (TotalPhotos (total fp)) m4)
      in m5\<lparr>stats := (stats m5)\<lparr>n_total := total fp\<rparr>\<rparr>)"

text \<open>The identifiers a page shows to the loop (none when the request fails), those of
  the pages from \<open>page\<close> to the last, and those a run started on machine \<open>m\<close>
  enumerates.\<close>

definition page_ids :: "env \<Rightarrow> int \<Rightarrow> page_data \<Rightarrow> int \<Rightarrow> string list" where
  "page_ids e sp fp page =
     (case page_request e sp fp page of Inr pd \<Rightarrow> map pid (photo pd) | Inl x \<Rightarrow> [])"

function listed :: "env \<Rightarrow> int \<Rightarrow> page_data \<Rightarrow> int \<Rightarrow> int \<Rightarrow> string list" where
  "listed e sp fp tps page =
     (if page < tps + 1 then page_ids e sp fp page @ listed e sp fp tps (page + 1) else [])"
  by pat_completeness auto
termination
  by (relation "measure (\<lambda>(e, sp, fp, tps, page). nat (tps + 1 - page))") auto

declare listed.simps [simp del]

definition enumerated :: "env \<Rightarrow> machine \<Rightarrow> string list" where
  "enumerated e m =
     (case getPhotos e 1 of
        Inl x \<Rightarrow> []
      | Inr fp \<Rightarrow>
          listed e (last_page (load_state m) + 1) fp (pages fp) (last_page (load_state m) + 1))"

text \<open>The destination name of an item, as \<open>process_photo\<close> builds it; the lines a step
  adds to the log; the value stored for an optional query; the warning it logs.\<close>

definition destination :: "photo \<Rightarrow> string" where
  "destination p =
     make_filename (pid p)
       (sanitize_filename (case title p of Some t \<Rightarrow> t | None \<Rightarrow> ''untitled''))
       (get_file_extension p)"

definition new_lines :: "machine \<Rightarrow> machine \<Rightarrow> log_msg list" where
  "new_lines m m' = drop (length (log_file m)) (log_file m')"

definition optional :: "exn + string \<Rightarrow> string option" where
  "optional r = (case r of Inr d \<Rightarrow> Some d | Inl x \<Rightarrow> None)"

definition warning :: "(exn \<Rightarrow> log_msg) \<Rightarrow> exn + string \<Rightarrow> log_msg list" where
  "warning w r =
     (case r of
        Inl (FlickrError msg) \<Rightarrow>
          if contains ''not found'' (lower msg) then [] else [w (FlickrError msg)]
      | _ \<Rightarrow> [])"

subsection \<open>Scenarios\<close>

text \<open>
  Concrete collections and services on which the functions above are evaluated. A
  listing entry with title \<open>t\<close>, format \<open>jpg\<close> and at most an original-size URL:
\<close>

definition item :: "string \<Rightarrow> string option \<Rightarrow> photo" where
  "item i u =
     \<lparr>pid = i, title = Some ''t'', url_o = u, url_k = None, url_h = None, url_l = None,
      url_c = None, urls = None, originalformat = Some ''jpg'', media = Some ''photo''\<rparr>"

text \<open>A new downloader on an empty disk.\<close>

definition fresh :: machine where
  "fresh =
     \<lparr>state = \<lparr>last_page = 0, downloaded = [], failed = []\<rparr>,
      stats = \<lparr>n_downloaded = 0, n_failed = 0, n_skipped = 0, n_total = 0\<rparr>,
      user_id = None, photos_dir = Map.empty, metadata_dir = Map.empty, state_file = None,
      log_file = [], dirs = {}, slept = []\<rparr>"

text \<open>The listing of a collection given page by page; a page past the end is empty.\<close>

definition listing :: "photo list list \<Rightarrow> int \<Rightarrow> exn + page_data" where
  "listing pgs p =
     Inr \<lparr>total = int (length (concat pgs)), pages = int (length pgs),
          photo = (if 1 \<le> p \<and> p \<le> int (length pgs) then pgs ! nat (p - 1) else [])\<rparr>"

text \<open>A service where every call other than the listing succeeds and nobody interrupts.\<close>

definition service :: "(int \<Rightarrow> exn + page_data) \<Rightarrow> env" where
  "service l =
     \<lparr>token_valid = True, authenticate_via_browser = None, login = Inr (''12345@N00'', ''owner''),
      getPhotos = l, getInfo = (\<lambda>i. Inr ''info''), getExif = (\<lambda>i. Inr ''exif''),
      getComments = (\<lambda>i. Inr ''comments''), requests_get = (\<lambda>u. Transferred),
      sigint = (\<lambda>i. False)\<rparr>"

text \<open>Two pages, three items, the second without any URL.\<close>

definition two_pages :: "photo list list" where
  "two_pages = [[item ''1'' (Some ''http://a/1''), item ''2'' None], [item ''3'' (Some ''http://a/3'')]]"

text \<open>Five pages of one item each.\<close>

definition five_pages :: "photo list list" where
  "five_pages =
     [[item ''p1'' (Some ''http://a/1'')], [item ''p2'' (Some ''http://a/2'')],
      [item ''p3'' (Some ''http://a/3'')], [item ''p4'' (Some ''http://a/4'')],
      [item ''p5'' (Some ''http://a/5'')]]"

text \<open>One page of two items.\<close>

definition one_page :: "photo list list" where
  "one_page = [[item ''a'' (Some ''http://a/a''), item ''b'' (Some ''http://a/b'')]]"

text \<open>The five pages, with the request for page 3 timing out.\<close>

definition flaky :: env where
  "flaky = service ((listing five_pages)(3 := Inl (OtherError ''timed out'')))"

text \<open>The one page, with the user pressing Ctrl-C in the sleep after item \<open>a\<close>.\<close>

definition interrupted :: env where
  "interrupted = (service (listing one_page))\<lparr>sigint := (\<lambda>i. i = ''a'')\<rparr>"

text \<open>A service whose transfers break before, or after, the file is opened.\<close>

definition refused :: "photo list list \<Rightarrow> env" where
  "refused pgs =
     (service (listing pgs))\<lparr>requests_get := (\<lambda>u. ErrorBeforeOpen (OtherError ''refused''))\<rparr>"

definition broken_stream :: "photo list list \<Rightarrow> env" where
  "broken_stream pgs =
     (service (listing pgs))\<lparr>requests_get := (\<lambda>u. ErrorAfterOpen (OtherError ''reset''))\<rparr>"

text \<open>A service whose EXIF query fails in the transport, not with a \<open>FlickrError\<close>.\<close>

definition exif_unreachable :: env where
  "exif_unreachable =
     (service (listing one_page))\<lparr>getExif := (\<lambda>i. Inl (OtherError ''connection reset''))\<rparr>"

text \<open>A service whose EXIF query answers "Photo not found" and whose comments query
  answers "Permission denied", both as \<open>FlickrError\<close>.\<close>

definition exif_absent :: env where
  "exif_absent =
     (service (listing one_page))
       \<lparr>getExif := (\<lambda>i. Inl (FlickrError ''Error: 1: Photo not found'')),
        getComments := (\<lambda>i. Inl (FlickrError ''Error: 2: Permission denied''))\<rparr>"

text \<open>The listing entry of the filename example.\<close>

definition trip :: photo where
  "trip = (item ''123'' (Some ''http://a/123''))\<lparr>title := Some ''My Trip!''\<rparr>"

text \<open>A collection of one item, and the same after a newer upload has moved the item
  to page 2.\<close>

definition before_upload :: "photo list list" where
  "before_upload = [[item ''x'' (Some ''http://a/x'')]]"

definition after_upload :: "photo list list" where
  "after_upload = [[item ''y'' (Some ''http://a/y'')], [item ''x'' (Some ''http://a/x'')]]"

text \<open>The credentials the check of \<open>main\<close> looks for.\<close>

definition placeholders :: config where
  "placeholders = \<lparr>api_key = ''YOUR_API_KEY_HERE'', api_secret = ''YOUR_API_SECRET_HERE''\<rparr>"

section \<open>Properties\<close>

lemmas run_defs =
  download_library_def pages_loop.simps process_page_def page_request_def process_photo_def
  log_def load_state_def save_state_def sleep_def get_photo_metadata_def save_metadata_def
  download_photo_def get_download_url_def get_file_extension_def make_filename_def
  sanitize_filename_def exists_def invalid_chars_def Let_def lower_def lower_char_def

lemmas scenario_defs =
  item_def fresh_def listing_def service_def init_def two_pages_def five_pages_def
  one_page_def flaky_def interrupted_def refused_def broken_stream_def exif_unreachable_def
  exif_absent_def trip_def before_upload_def after_upload_def placeholders_def

subsection \<open>Fields left alone\<close>

lemma log_fields [simp]:
  "state (log x m) = state m" "stats (log x m) = stats m" "user_id (log x m) = user_id m"
  "photos_dir (log x m) = photos_dir m" "metadata_dir (log x m) = metadata_dir m"
  "state_file (log x m) = state_file m" "dirs (log x m) = dirs m" "slept (log x m) = slept m"
  "log_file (log x m) = log_file m @ [x]"
  by (simp_all add: log_def)

lemma sleep_fields [simp]:
  "state (sleep n m) = state m" "stats (sleep n m) = stats m" "user_id (sleep n m) = user_id m"
  "photos_dir (sleep n m) = photos_dir m" "metadata_dir (sleep n m) = metadata_dir m"
  "state_file (sleep n m) = state_file m" "dirs (sleep n m) = dirs m"
  "log_file (sleep n m) = log_file m" "slept (sleep n m) = slept m @ [n]"
  by (simp_all add: sleep_def)

lemma save_state_fields [simp]:
  "state (save_state s m) = state m" "stats (save_state s m) = stats m"
  "user_id (save_state s m) = user_id m"
  "photos_dir (save_state s m) = photos_dir m" "metadata_dir (save_state s m) = metadata_dir m"
  "state_file (save_state s m) = Some s" "dirs (save_state s m) = dirs m"
  "log_file (save_state s m) = log_file m" "slept (save_state s m) = slept m"
  by (simp_all add: save_state_def)

lemma save_metadata_fields [simp]:
  "state (save_metadata i d m) = state m" "stats (save_metadata i d m) = stats m"
  "user_id (save_metadata i d m) = user_id m"
  "photos_dir (save_metadata i d m) = photos_dir m"
  "metadata_dir (save_metadata i d m) = (metadata_dir m)(i \<mapsto> d)"
  "state_file (save_metadata i d m) = state_file m" "dirs (save_metadata i d m) = dirs m"
  "log_file (save_metadata i d m) = log_file m" "slept (save_metadata i d m) = slept m"
  by (simp_all add: save_metadata_def)

lemma get_photo_metadata_fields [simp]:
  "state (snd (get_photo_metadata e i m)) = state m"
  "stats (snd (get_photo_metadata e i m)) = stats m"
  "user_id (snd (get_photo_metadata e i m)) = user_id m"
  "photos_dir (snd (get_photo_metadata e i m)) = photos_dir m"
  "metadata_dir (snd (get_photo_metadata e i m)) = metadata_dir m"
  "state_file (snd (get_photo_metadata e i m)) = state_file m"
  "dirs (snd (get_photo_metadata e i m)) = dirs m"
  "slept (snd (get_photo_metadata e i m)) = slept m"
  by (auto simp: get_photo_metadata_def split: sum.splits exn.splits prod.splits)

lemma download_photo_fields [simp]:
  "state (snd (download_photo e i u f m)) = state m"
  "user_id (snd (download_photo e i u f m)) = user_id m"
  "metadata_dir (snd (download_photo e i u f m)) = metadata_dir m"
  "state_file (snd (download_photo e i u f m)) = state_file m"
  "dirs (snd (download_photo e i u f m)) = dirs m"
  "slept (snd (download_photo e i u f m)) = slept m"
  by (simp_all add: download_photo_def Let_def split: transfer.splits)

lemma process_photo_skip:
  "pid p \<in> set (downloaded (state m)) \<Longrightarrow>
   process_photo e page tp i p m = (Normal, log (SkippingProcessed (pid p)) m)"
  by (simp add: process_photo_def)

lemma process_photo_state:
  assumes "pid p \<notin> set (downloaded (state m))"
  shows "last_page (state (snd (process_photo e page tp i p m))) = page"
    and "state_file (snd (process_photo e page tp i p m)) = Some (state (snd (process_photo e page tp i p m)))"
    and "(downloaded (state (snd (process_photo e page tp i p m))) = downloaded (state m) @ [pid p] \<and>
          failed (state (snd (process_photo e page tp i p m))) = failed (state m)) \<or>
         (downloaded (state (snd (process_photo e page tp i p m))) = downloaded (state m) \<and>
          failed (state (snd (process_photo e page tp i p m))) = failed (state m) @ [pid p])"
  using assms
  by (simp_all add: process_photo_def Let_def case_prod_beta split: option.splits list.splits)

lemma download_photo_log_only:
  "exists f m \<Longrightarrow> photos_dir (snd (download_photo e i u f m)) = photos_dir m"
  by (simp add: download_photo_def)

subsection \<open>The loop over the photos of a page\<close>

lemma process_photos_all_skipped:
  "\<forall>p \<in> set ps. pid p \<in> set (downloaded (state m)) \<Longrightarrow>
   fst (process_photos e page tp i ps m) = Normal \<and>
   state (snd (process_photos e page tp i ps m)) = state m \<and>
   stats (snd (process_photos e page tp i ps m)) = stats m \<and>
   photos_dir (snd (process_photos e page tp i ps m)) = photos_dir m \<and>
   metadata_dir (snd (process_photos e page tp i ps m)) = metadata_dir m \<and>
   state_file (snd (process_photos e page tp i ps m)) = state_file m \<and>
   slept (snd (process_photos e page tp i ps m)) = slept m"
  by (induction ps arbitrary: i m) (simp_all add: process_photo_skip)

lemma process_photo_prefix:
  "prefix (downloaded (state m)) (downloaded (state (snd (process_photo e page tp i p m)))) \<and>
   prefix (failed (state m)) (failed (state (snd (process_photo e page tp i p m))))"
proof (cases "pid p \<in> set (downloaded (state m))")
  case True
  then show ?thesis by (simp add: process_photo_skip)
next
  case False
  from process_photo_state(3) [OF this, where e = e and page = page and tp = tp and i = i] show ?thesis by auto
qed

lemma process_photos_prefix:
  "prefix (downloaded (state m)) (downloaded (state (snd (process_photos e page tp i ps m)))) \<and>
   prefix (failed (state m)) (failed (state (snd (process_photos e page tp i ps m))))"
proof (induction ps arbitrary: i m)
  case Nil
  then show ?case by simp
next
  case (Cons p ps)
  obtain out m1 where r: "process_photo e page tp i p m = (out, m1)"
    by (cases "process_photo e page tp i p m")
  have p1: "prefix (downloaded (state m)) (downloaded (state m1))"
    "prefix (failed (state m)) (failed (state m1))"
    using process_photo_prefix [where m = m and e = e and page = page and tp = tp and i = i and p = p] r by simp_all
  show ?case
  proof (cases out)
    case Normal
    with r p1 Cons.IH [where i = "i + 1" and m = m1] show ?thesis
      by (auto intro: prefix_order.trans)
  next
    case KeyboardInterrupt
    with r p1 show ?thesis by simp
  next
    case (Raised x)
    with r p1 show ?thesis by simp
  qed
qed

text \<open>A machine whose checkpoint in memory is the one on disk.\<close>

lemma process_photo_synced:
  "load_state m = state m \<Longrightarrow>
   load_state (snd (process_photo e page tp i p m)) = state (snd (process_photo e page tp i p m))"
proof (cases "pid p \<in> set (downloaded (state m))")
  case True
  assume "load_state m = state m"
  with True show ?thesis by (simp add: process_photo_skip load_state_def)
next
  case False
  from process_photo_state(2) [OF this, where e = e and page = page and tp = tp and i = i] show ?thesis
    by (simp add: load_state_def)
qed

lemma process_photos_synced:
  "load_state m = state m \<Longrightarrow>
   load_state (snd (process_photos e page tp i ps m)) = state (snd (process_photos e page tp i ps m))"
proof (induction ps arbitrary: i m)
  case Nil
  then show ?case by simp
next
  case (Cons p ps)
  obtain out m1 where r: "process_photo e page tp i p m = (out, m1)"
    by (cases "process_photo e page tp i p m")
  have s1: "load_state m1 = state m1"
    using process_photo_synced [OF Cons.prems, where e = e and page = page and tp = tp and i = i and p = p] r by simp
  show ?case
    using r s1 Cons.IH [OF s1, where i = "i + 1"] by (cases out) simp_all
qed

text \<open>After a page has been walked through, either nothing was attempted and every item
  of it is in the complete list, or the last page is this page.\<close>

lemma process_photo_last_page:
  "(state (snd (process_photo e page tp i p m)) = state m \<and> pid p \<in> set (downloaded (state m))) \<or>
   last_page (state (snd (process_photo e page tp i p m))) = page"
proof (cases "pid p \<in> set (downloaded (state m))")
  case True
  then show ?thesis by (simp add: process_photo_skip)
next
  case False
  from process_photo_state(1) [OF this, where e = e and page = page and tp = tp and i = i] show ?thesis by simp
qed

lemma process_photos_last_page:
  "(state (snd (process_photos e page tp i ps m)) = state m \<and>
      (fst (process_photos e page tp i ps m) = Normal \<longrightarrow>
       (\<forall>p \<in> set ps. pid p \<in> set (downloaded (state m))))) \<or>
   last_page (state (snd (process_photos e page tp i ps m))) = page"
proof (induction ps arbitrary: i m)
  case Nil
  then show ?case by simp
next
  case (Cons p ps)
  obtain out m1 where r: "process_photo e page tp i p m = (out, m1)"
    by (cases "process_photo e page tp i p m")
  have a: "(state m1 = state m \<and> pid p \<in> set (downloaded (state m))) \<or> last_page (state m1) = page"
    using process_photo_last_page [where m = m and e = e and page = page and tp = tp and i = i and p = p] r by simp
  show ?case
  proof (cases out)
    case Normal
    with r a Cons.IH [where i = "i + 1" and m = m1] show ?thesis by auto
  next
    case KeyboardInterrupt
    with r a show ?thesis by auto
  next
    case (Raised x)
    with r a show ?thesis by auto
  qed
qed

subsection \<open>One page\<close>

lemma process_page_Inl:
  assumes "page_request e sp fp page = Inl x"
  shows "fst (process_page e sp fp tp tps page m) = Normal"
    and "state (snd (process_page e sp fp tp tps page m)) = (state m)\<lparr>last_page := page - 1\<rparr>"
    and "state_file (snd (process_page e sp fp tp tps page m)) = Some ((state m)\<lparr>last_page := page - 1\<rparr>)"
    and "stats (snd (process_page e sp fp tp tps page m)) = stats m"
    and "photos_dir (snd (process_page e sp fp tp tps page m)) = photos_dir m"
    and "metadata_dir (snd (process_page e sp fp tp tps page m)) = metadata_dir m"
  using assms by (simp_all add: process_page_def Let_def)

lemma process_page_Inr:
  fixes m :: machine and tp tps :: int
  assumes "page_request e sp fp page = Inr pd"
  defines "r \<equiv> process_photos e page tp 1 (photo pd)
     (log (FoundPhotos (int (length (photo pd)))) (log (ProcessingPage page tps) (log Dashes m)))"
  shows "fst (process_page e sp fp tp tps page m) = fst r"
    and "state (snd (process_page e sp fp tp tps page m)) = state (snd r)"
    and "state_file (snd (process_page e sp fp tp tps page m)) = state_file (snd r)"
    and "stats (snd (process_page e sp fp tp tps page m)) = stats (snd r)"
    and "photos_dir (snd (process_page e sp fp tp tps page m)) = photos_dir (snd r)"
    and "metadata_dir (snd (process_page e sp fp tp tps page m)) = metadata_dir (snd r)"
  using assms(1) unfolding r_def
  by (simp_all add: process_page_def Let_def split: prod.splits outcome.splits)

lemma process_page_prefix:
  "prefix (downloaded (state m)) (downloaded (state (snd (process_page e sp fp tp tps page m)))) \<and>
   prefix (failed (state m)) (failed (state (snd (process_page e sp fp tp tps page m))))"
proof (cases "page_request e sp fp page")
  case (Inl x)
  then show ?thesis by (simp add: process_page_Inl)
next
  case (Inr pd)
  show ?thesis
    using process_photos_prefix [where e = e and page = page and tp = tp and i = 1
        and ps = "photo pd"
        and m = "log (FoundPhotos (int (length (photo pd)))) (log (ProcessingPage page tps) (log Dashes m))"]
    by (simp add: process_page_Inr [OF Inr])
qed

lemma process_page_synced:
  assumes "load_state m = state m"
  shows "load_state (snd (process_page e sp fp tp tps page m)) =
    state (snd (process_page e sp fp tp tps page m))"
proof (cases "page_request e sp fp page")
  case (Inl x)
  then show ?thesis by (simp add: process_page_Inl load_state_def)
next
  case (Inr pd)
  let ?m2 = "log (FoundPhotos (int (length (photo pd)))) (log (ProcessingPage page tps) (log Dashes m))"
  have "load_state ?m2 = state ?m2"
    using assms by (simp add: load_state_def)
  from process_photos_synced [OF this, where e = e and page = page and tp = tp and i = 1
      and ps = "photo pd"]
  show ?thesis
    by (simp add: process_page_Inr [OF Inr] load_state_def)
qed

text \<open>A page that cannot be fetched, or whose items are all in the complete list, leaves
  the lists, the counters and the files as they are.\<close>

lemma process_page_quiet:
  assumes "\<forall>pd. page_request e sp fp page = Inr pd \<longrightarrow>
     (\<forall>p \<in> set (photo pd). pid p \<in> set (downloaded (state m)))"
  shows "fst (process_page e sp fp tp tps page m) = Normal"
    and "downloaded (state (snd (process_page e sp fp tp tps page m))) = downloaded (state m)"
    and "failed (state (snd (process_page e sp fp tp tps page m))) = failed (state m)"
    and "stats (snd (process_page e sp fp tp tps page m)) = stats m"
    and "photos_dir (snd (process_page e sp fp tp tps page m)) = photos_dir m"
    and "metadata_dir (snd (process_page e sp fp tp tps page m)) = metadata_dir m"
proof -
  have "fst (process_page e sp fp tp tps page m) = Normal \<and>
    downloaded (state (snd (process_page e sp fp tp tps page m))) = downloaded (state m) \<and>
    failed (state (snd (process_page e sp fp tp tps page m))) = failed (state m) \<and>
    stats (snd (process_page e sp fp tp tps page m)) = stats m \<and>
    photos_dir (snd (process_page e sp fp tp tps page m)) = photos_dir m \<and>
    metadata_dir (snd (process_page e sp fp tp tps page m)) = metadata_dir m"
  proof (cases "page_request e sp fp page")
    case (Inl x)
    then show ?thesis by (simp add: process_page_Inl)
  next
    case (Inr pd)
    let ?m2 = "log (FoundPhotos (int (length (photo pd)))) (log (ProcessingPage page tps) (log Dashes m))"
    have "\<forall>p \<in> set (photo pd). pid p \<in> set (downloaded (state ?m2))"
      using assms Inr by simp
    from process_photos_all_skipped [OF this, where e = e and page = page and tp = tp and i = 1]
    show ?thesis
      by (simp add: process_page_Inr [OF Inr])
  qed
  then show "fst (process_page e sp fp tp tps page m) = Normal"
    and "downloaded (state (snd (process_page e sp fp tp tps page m))) = downloaded (state m)"
    and "failed (state (snd (process_page e sp fp tp tps page m))) = failed (state m)"
    and "stats (snd (process_page e sp fp tp tps page m)) = stats m"
    and "photos_dir (snd (process_page e sp fp tp tps page m)) = photos_dir m"
    and "metadata_dir (snd (process_page e sp fp tp tps page m)) = metadata_dir m"
    by simp_all
qed

text \<open>After a page, the last page is this page or the one before, or the checkpoint is
  unchanged, the page was fetched and, when the page ended normally, all its items are
  in the complete list.\<close>

lemma process_page_last_page:
  "last_page (state (snd (process_page e sp fp tp tps page m))) = page \<or>
   (last_page (state (snd (process_page e sp fp tp tps page m))) = page - 1 \<and>
    downloaded (state (snd (process_page e sp fp tp tps page m))) = downloaded (state m) \<and>
    (\<exists>x. page_request e sp fp page = Inl x)) \<or>
   (state (snd (process_page e sp fp tp tps page m)) = state m \<and>
    (fst (process_page e sp fp tp tps page m) = Normal \<longrightarrow>
     (\<forall>pd. page_request e sp fp page = Inr pd \<longrightarrow>
       (\<forall>p \<in> set (photo pd). pid p \<in> set (downloaded (state m))))))"
proof (cases "page_request e sp fp page")
  case (Inl x)
  then show ?thesis by (simp add: process_page_Inl)
next
  case (Inr pd)
  show ?thesis
    using process_photos_last_page [where e = e and page = page and tp = tp and i = 1
        and ps = "photo pd"
        and m = "log (FoundPhotos (int (length (photo pd)))) (log (ProcessingPage page tps) (log Dashes m))"]
    by (auto simp: process_page_Inr [OF Inr] Inr)
qed

subsection \<open>The loop over the pages\<close>

lemma pages_loop_done:
  "\<not> page < tps + 1 \<Longrightarrow> pages_loop e sp fp tp tps page m = (Normal, m)"
  by (simp add: pages_loop.simps)

lemma pages_loop_step:
  "page < tps + 1 \<Longrightarrow> fst (process_page e sp fp tp tps page m) = Normal \<Longrightarrow>
   pages_loop e sp fp tp tps page m =
     pages_loop e sp fp tp tps (page + 1) (snd (process_page e sp fp tp tps page m))"
  by (subst pages_loop.simps) (auto split: prod.splits outcome.splits)

lemma pages_loop_stop:
  "page < tps + 1 \<Longrightarrow> fst (process_page e sp fp tp tps page m) \<noteq> Normal \<Longrightarrow>
   pages_loop e sp fp tp tps page m = process_page e sp fp tp tps page m"
  by (subst pages_loop.simps) (auto split: prod.splits outcome.splits)

lemma pages_loop_cases [consumes 0, case_names finished interrupted continued]:
  assumes "\<And>page m. \<not> page < tps + 1 \<Longrightarrow> P page m"
    and "\<And>page m. page < tps + 1 \<Longrightarrow> fst (process_page e sp fp tp tps page m) \<noteq> Normal \<Longrightarrow> P page m"
    and "\<And>page m. page < tps + 1 \<Longrightarrow> fst (process_page e sp fp tp tps page m) = Normal \<Longrightarrow>
           P (page + 1) (snd (process_page e sp fp tp tps page m)) \<Longrightarrow> P page m"
  shows "P page m"
  using assms
proof (induction e sp fp tp tps page m rule: pages_loop.induct)
  case (1 e sp fp tp tps page m)
  show ?case
  proof (cases "page < tps + 1")
    case False
    then show ?thesis by (rule "1.prems"(1))
  next
    case True
    show ?thesis
    proof (cases "fst (process_page e sp fp tp tps page m) = Normal")
      case False
      with True show ?thesis by (rule "1.prems"(2))
    next
      case n: True
      have "P (page + 1) (snd (process_page e sp fp tp tps page m))"
        by (rule "1.IH" [OF True _ n "1.prems"]) simp_all
      with True n show ?thesis by (rule "1.prems"(3))
    qed
  qed
qed

lemma pages_loop_prefix:
  "prefix (downloaded (state m)) (downloaded (state (snd (pages_loop e sp fp tp tps page m)))) \<and>
   prefix (failed (state m)) (failed (state (snd (pages_loop e sp fp tp tps page m))))"
proof (induction page m
    rule: pages_loop_cases [where e = e and sp = sp and fp = fp and tp = tp and tps = tps])
  case (finished page m)
  then show ?case by (simp add: pages_loop_done)
next
  case (interrupted page m)
  then show ?case by (simp add: pages_loop_stop process_page_prefix)
next
  case (continued page m)
  with process_page_prefix [where m = m and e = e and sp = sp and fp = fp and tp = tp
      and tps = tps and page = page]
  show ?case
    by (auto simp: pages_loop_step intro: prefix_order.trans)
qed

lemma pages_loop_synced:
  "load_state m = state m \<Longrightarrow>
   load_state (snd (pages_loop e sp fp tp tps page m)) =
     state (snd (pages_loop e sp fp tp tps page m))"
proof (induction page m
    rule: pages_loop_cases [where e = e and sp = sp and fp = fp and tp = tp and tps = tps])
  case (finished page m)
  then show ?case by (simp add: pages_loop_done)
next
  case (interrupted page m)
  then show ?case by (simp add: pages_loop_stop process_page_synced)
next
  case (continued page m)
  then show ?case by (simp add: pages_loop_step process_page_synced)
qed

lemma pages_loop_lower:
  "lo \<le> last_page (state m) \<Longrightarrow> lo < page \<Longrightarrow>
   lo \<le> last_page (state (snd (pages_loop e sp fp tp tps page m)))"
proof (induction page m
    rule: pages_loop_cases [where e = e and sp = sp and fp = fp and tp = tp and tps = tps])
  case (finished page m)
  then show ?case by (simp add: pages_loop_done)
next
  case (interrupted page m)
  with process_page_last_page [where m = m and e = e and sp = sp and fp = fp and tp = tp
      and tps = tps and page = page]
  show ?case by (auto simp: pages_loop_stop)
next
  case (continued page m)
  have "lo \<le> last_page (state (snd (process_page e sp fp tp tps page m)))"
    using continued.prems
      process_page_last_page [where m = m and e = e and sp = sp and fp = fp and tp = tp
        and tps = tps and page = page]
    by auto
  with continued show ?case by (simp add: pages_loop_step)
qed

text \<open>Pages that cannot be fetched or hold complete items only: the loop returns
  normally and changes neither the lists, nor the counters, nor the files.\<close>

lemma pages_loop_quiet:
  "\<forall>p pd. page \<le> p \<and> p \<le> tps \<and> page_request e sp fp p = Inr pd \<longrightarrow>
     (\<forall>ph \<in> set (photo pd). pid ph \<in> set (downloaded (state m))) \<Longrightarrow>
   fst (pages_loop e sp fp tp tps page m) = Normal \<and>
   downloaded (state (snd (pages_loop e sp fp tp tps page m))) = downloaded (state m) \<and>
   failed (state (snd (pages_loop e sp fp tp tps page m))) = failed (state m) \<and>
   stats (snd (pages_loop e sp fp tp tps page m)) = stats m \<and>
   photos_dir (snd (pages_loop e sp fp tp tps page m)) = photos_dir m \<and>
   metadata_dir (snd (pages_loop e sp fp tp tps page m)) = metadata_dir m"
proof (induction page m
    rule: pages_loop_cases [where e = e and sp = sp and fp = fp and tp = tp and tps = tps])
  case (finished page m)
  then show ?case by (simp add: pages_loop_done)
next
  case (interrupted page m)
  have "\<forall>pd. page_request e sp fp page = Inr pd \<longrightarrow>
     (\<forall>p \<in> set (photo pd). pid p \<in> set (downloaded (state m)))"
    using interrupted.prems interrupted.hyps(1) by auto
  from process_page_quiet(1) [OF this] interrupted.hyps(2) show ?case by simp
next
  case (continued page m)
  have q: "\<forall>pd. page_request e sp fp page = Inr pd \<longrightarrow>
     (\<forall>p \<in> set (photo pd). pid p \<in> set (downloaded (state m)))"
    using continued.prems continued.hyps(1) by auto
  note same = process_page_quiet [OF q, where tp = tp and tps = tps]
  have "\<forall>p pd. page + 1 \<le> p \<and> p \<le> tps \<and> page_request e sp fp p = Inr pd \<longrightarrow>
     (\<forall>ph \<in> set (photo pd).
        pid ph \<in> set (downloaded (state (snd (process_page e sp fp tp tps page m)))))"
  proof (intro allI impI, elim conjE)
    fix p pd
    assume "page + 1 \<le> p" "p \<le> tps" "page_request e sp fp p = Inr pd"
    then have "page \<le> p \<and> p \<le> tps \<and> page_request e sp fp p = Inr pd" by simp
    with continued.prems
    have "\<forall>ph \<in> set (photo pd). pid ph \<in> set (downloaded (state m))" by blast
    then show "\<forall>ph \<in> set (photo pd).
        pid ph \<in> set (downloaded (state (snd (process_page e sp fp tp tps page m))))"
      by (simp add: same)
  qed
  from continued.IH [OF this] continued.hyps show ?case
    by (simp add: pages_loop_step same)
qed

text \<open>The pages already visited whose number is above the last page of the checkpoint
  were fetched with complete items only.\<close>

lemma pages_loop_settled:
  "\<forall>p pd. sp \<le> p \<and> p < page \<and> last_page (state m) < p \<and> page_request e sp fp p = Inr pd \<longrightarrow>
     (\<forall>ph \<in> set (photo pd). pid ph \<in> set (downloaded (state m))) \<Longrightarrow>
   fst (pages_loop e sp fp tp tps page m) = Normal \<Longrightarrow>
   \<forall>p pd. sp \<le> p \<and> p < max page (tps + 1) \<and>
       last_page (state (snd (pages_loop e sp fp tp tps page m))) < p \<and>
       page_request e sp fp p = Inr pd \<longrightarrow>
     (\<forall>ph \<in> set (photo pd).
        pid ph \<in> set (downloaded (state (snd (pages_loop e sp fp tp tps page m)))))"
proof (induction page m
    rule: pages_loop_cases [where e = e and sp = sp and fp = fp and tp = tp and tps = tps])
  case (finished page m)
  then have d: "pages_loop e sp fp tp tps page m = (Normal, m)"
    by (simp add: pages_loop_done)
  show ?case
  proof (intro allI impI, elim conjE)
    fix p pd
    assume b: "sp \<le> p" "p < max page (tps + 1)"
      "last_page (state (snd (pages_loop e sp fp tp tps page m))) < p"
      "page_request e sp fp p = Inr pd"
    from finished(1) b(2) have "p < page" by linarith
    with b d have "sp \<le> p \<and> p < page \<and> last_page (state m) < p \<and> page_request e sp fp p = Inr pd"
      by simp
    with finished(2) have "\<forall>ph \<in> set (photo pd). pid ph \<in> set (downloaded (state m))"
      by blast
    with d show "\<forall>ph \<in> set (photo pd).
        pid ph \<in> set (downloaded (state (snd (pages_loop e sp fp tp tps page m))))"
      by simp
  qed
next
  case (interrupted page m)
  then show ?case by (simp add: pages_loop_stop)
next
  case (continued page m)
  let ?m1 = "snd (process_page e sp fp tp tps page m)"
  have inv: "\<forall>p pd. sp \<le> p \<and> p < page + 1 \<and> last_page (state ?m1) < p \<and>
       page_request e sp fp p = Inr pd \<longrightarrow>
     (\<forall>ph \<in> set (photo pd). pid ph \<in> set (downloaded (state ?m1)))"
    using process_page_last_page [where m = m and e = e and sp = sp and fp = fp and tp = tp
        and tps = tps and page = page]
  proof (elim disjE conjE exE)
    assume "last_page (state ?m1) = page"
    then show ?thesis by auto
  next
    fix x
    assume c: "last_page (state ?m1) = page - 1" "page_request e sp fp page = Inl x"
    show ?thesis
    proof (intro allI impI, elim conjE)
      fix p pd
      assume b: "sp \<le> p" "p < page + 1" "last_page (state ?m1) < p" "page_request e sp fp p = Inr pd"
      from b(2,3) c(1) have "p = page" by simp
      with b(4) c(2) show "\<forall>ph \<in> set (photo pd). pid ph \<in> set (downloaded (state ?m1))"
        by simp
    qed
  next
    assume a: "state ?m1 = state m"
      "fst (process_page e sp fp tp tps page m) = Normal \<longrightarrow>
        (\<forall>pd. page_request e sp fp page = Inr pd \<longrightarrow>
          (\<forall>p \<in> set (photo pd). pid p \<in> set (downloaded (state m))))"
    show ?thesis
    proof (intro allI impI, elim conjE)
      fix p pd
      assume b: "sp \<le> p" "p < page + 1" "last_page (state ?m1) < p" "page_request e sp fp p = Inr pd"
      show "\<forall>ph \<in> set (photo pd). pid ph \<in> set (downloaded (state ?m1))"
      proof (cases "p = page")
        case True
        with a b continued.hyps(2) show ?thesis by auto
      next
        case False
        with b have "p < page" by simp
        with a b continued.prems(1) show ?thesis by auto
      qed
    qed
  qed
  have "fst (pages_loop e sp fp tp tps (page + 1) ?m1) = Normal"
    using continued.prems(2) continued.hyps by (simp add: pages_loop_step)
  from continued.IH [OF inv this] continued.hyps show ?case
    by (simp add: pages_loop_step max_def)
qed

subsection \<open>The whole run\<close>

lemma load_state_cong: "state_file a = state_file b \<Longrightarrow> load_state a = load_state b"
  by (simp add: load_state_def)

lemma init_fields [simp]:
  "state_file (init m) = state_file m" "photos_dir (init m) = photos_dir m"
  "metadata_dir (init m) = metadata_dir m" "log_file (init m) = log_file m"
  "dirs (init m) = dirs m" "slept (init m) = slept m"
  "stats (init m) = \<lparr>n_downloaded = 0, n_failed = 0, n_skipped = 0, n_total = 0\<rparr>"
  by (simp_all add: init_def)

lemma at_loop_fields [simp]:
  "state (at_loop fp m) = load_state m" "state_file (at_loop fp m) = state_file m"
  "stats (at_loop fp m) = (stats m)\<lparr>n_total := total fp\<rparr>"
  "photos_dir (at_loop fp m) = photos_dir m" "metadata_dir (at_loop fp m) = metadata_dir m"
  by (simp_all add: at_loop_def Let_def load_state_def)

lemma download_library_Inl:
  "getPhotos e 1 = Inl x \<Longrightarrow> fst (download_library e m) = Raised x"
  by (simp add: download_library_def Let_def)

lemma download_library_Inr:
  fixes m :: machine
  assumes "getPhotos e 1 = Inr fp"
  defines "r \<equiv> pages_loop e (last_page (load_state m) + 1) fp (total fp) (pages fp)
     (last_page (load_state m) + 1) (at_loop fp m)"
  shows "fst (download_library e m) = fst r"
    and "state (snd (download_library e m)) = state (snd r)"
    and "state_file (snd (download_library e m)) = state_file (snd r)"
    and "stats (snd (download_library e m)) = stats (snd r)"
    and "photos_dir (snd (download_library e m)) = photos_dir (snd r)"
    and "metadata_dir (snd (download_library e m)) = metadata_dir (snd r)"
proof -
  have sp: "last_page (state ((log Rule (log TargetDirectory (log StartingDownload (log Rule m))))
      \<lparr>state := load_state (log Rule (log TargetDirectory (log StartingDownload (log Rule m))))\<rparr>)) + 1
    = last_page (load_state m) + 1"
    by (simp add: load_state_def)
  have "download_library e m =
    (case r of
       (Normal, m7) \<Rightarrow>
         (Normal,
          log Rule (log MetadataSavedTo (log PhotosSavedTo
            (log (FailedCount (n_failed (stats m7)))
            (log (SkippedExisted (n_skipped (stats m7)))
            (log (SuccessfullyDownloaded (n_downloaded (stats m7)))
            (log (TotalPhotos (n_total (stats m7)))
            (log DownloadComplete (log Rule m7)))))))))
     | (out, m7) \<Rightarrow> (out, m7))"
    unfolding r_def download_library_def at_loop_def Let_def sp
    using assms(1) by simp
  then show "fst (download_library e m) = fst r"
    and "state (snd (download_library e m)) = state (snd r)"
    and "state_file (snd (download_library e m)) = state_file (snd r)"
    and "stats (snd (download_library e m)) = stats (snd r)"
    and "photos_dir (snd (download_library e m)) = photos_dir (snd r)"
    and "metadata_dir (snd (download_library e m)) = metadata_dir (snd r)"
    by (simp_all split: prod.splits outcome.splits)
qed

lemma page_request_first:
  "getPhotos e 1 = Inr fp \<Longrightarrow> page_request e sp fp p = getPhotos e p"
  by (simp add: page_request_def)

lemma download_photo_existing:
  "exists f m \<Longrightarrow>
   fst (download_photo e i u f m) = True \<and>
   photos_dir (snd (download_photo e i u f m)) = photos_dir m \<and>
   stats (snd (download_photo e i u f m)) = (stats m)\<lparr>n_skipped := n_skipped (stats m) + 1\<rparr> \<and>
   log_file (snd (download_photo e i u f m)) = log_file m @ [SkippingExisting f]"
  by (simp add: download_photo_def)


subsection \<open>Disjoint lists\<close>

lemma process_photos_disjoint:
  "set (downloaded (state m)) \<inter> set (failed (state m)) = {} \<Longrightarrow>
   distinct (map pid ps @ rest) \<Longrightarrow>
   set (map pid ps @ rest) \<inter> set (failed (state m)) = {} \<Longrightarrow>
   set (downloaded (state (snd (process_photos e page tp i ps m)))) \<inter>
     set (failed (state (snd (process_photos e page tp i ps m)))) = {} \<and>
   set rest \<inter> set (failed (state (snd (process_photos e page tp i ps m)))) = {}"
proof (induction ps arbitrary: i m)
  case Nil
  then show ?case by simp
next
  case (Cons p ps)
  let ?m1 = "snd (process_photo e page tp i p m)"
  have step: "set (downloaded (state ?m1)) \<inter> set (failed (state ?m1)) = {} \<and>
    set (map pid ps @ rest) \<inter> set (failed (state ?m1)) = {}"
  proof (cases "pid p \<in> set (downloaded (state m))")
    case True
    with Cons.prems show ?thesis by (auto simp: process_photo_skip)
  next
    case False
    have nf: "pid p \<notin> set (failed (state m))" using Cons.prems(3) by auto
    have nr: "pid p \<notin> set (map pid ps @ rest)" using Cons.prems(2) by auto
    from process_photo_state(3) [OF False, where e = e and page = page and tp = tp and i = i]
    show ?thesis
    proof (elim disjE conjE)
      assume "downloaded (state ?m1) = downloaded (state m) @ [pid p]"
        "failed (state ?m1) = failed (state m)"
      with Cons.prems nf show ?thesis by auto
    next
      assume "downloaded (state ?m1) = downloaded (state m)"
        "failed (state ?m1) = failed (state m) @ [pid p]"
      with Cons.prems False nr show ?thesis by auto
    qed
  qed
  have d: "distinct (map pid ps @ rest)" using Cons.prems(2) by simp
  show ?case
  proof (cases "fst (process_photo e page tp i p m)")
    case Normal
    then have "process_photos e page tp i (p # ps) m = process_photos e page tp (i + 1) ps ?m1"
      by (cases "process_photo e page tp i p m") auto
    with Cons.IH [OF conjunct1 [OF step] d conjunct2 [OF step], where i = "i + 1"]
    show ?thesis by simp
  next
    case KeyboardInterrupt
    then have "process_photos e page tp i (p # ps) m = (KeyboardInterrupt, ?m1)"
      by (cases "process_photo e page tp i p m") auto
    with step show ?thesis by auto
  next
    case (Raised x)
    then have "process_photos e page tp i (p # ps) m = (Raised x, ?m1)"
      by (cases "process_photo e page tp i p m") auto
    with step show ?thesis by auto
  qed
qed

lemma process_page_disjoint:
  assumes "set (downloaded (state m)) \<inter> set (failed (state m)) = {}"
    and "distinct (page_ids e sp fp page @ rest)"
    and "set (page_ids e sp fp page @ rest) \<inter> set (failed (state m)) = {}"
  shows "set (downloaded (state (snd (process_page e sp fp tp tps page m)))) \<inter>
     set (failed (state (snd (process_page e sp fp tp tps page m)))) = {} \<and>
   set rest \<inter> set (failed (state (snd (process_page e sp fp tp tps page m)))) = {}"
proof (cases "page_request e sp fp page")
  case (Inl x)
  with assms show ?thesis by (simp add: process_page_Inl page_ids_def)
next
  case (Inr pd)
  let ?m2 = "log (FoundPhotos (int (length (photo pd)))) (log (ProcessingPage page tps) (log Dashes m))"
  have "set (downloaded (state ?m2)) \<inter> set (failed (state ?m2)) = {}"
    "distinct (map pid (photo pd) @ rest)"
    "set (map pid (photo pd) @ rest) \<inter> set (failed (state ?m2)) = {}"
    using assms Inr by (simp_all add: page_ids_def)
  from process_photos_disjoint [OF this, where e = e and page = page and tp = tp and i = 1]
  show ?thesis by (simp add: process_page_Inr [OF Inr])
qed

lemma listed_step:
  "page < tps + 1 \<Longrightarrow> listed e sp fp tps page = page_ids e sp fp page @ listed e sp fp tps (page + 1)"
  by (subst listed.simps) simp

lemma pages_loop_disjoint:
  "set (downloaded (state m)) \<inter> set (failed (state m)) = {} \<Longrightarrow>
   distinct (listed e sp fp tps page) \<Longrightarrow>
   set (listed e sp fp tps page) \<inter> set (failed (state m)) = {} \<Longrightarrow>
   set (downloaded (state (snd (pages_loop e sp fp tp tps page m)))) \<inter>
     set (failed (state (snd (pages_loop e sp fp tp tps page m)))) = {}"
proof (induction page m
    rule: pages_loop_cases [where e = e and sp = sp and fp = fp and tp = tp and tps = tps])
  case (finished page m)
  then show ?case by (simp add: pages_loop_done)
next
  case (interrupted page m)
  from interrupted(1,4,5) have
    "distinct (page_ids e sp fp page @ listed e sp fp tps (page + 1))"
    "set (page_ids e sp fp page @ listed e sp fp tps (page + 1)) \<inter> set (failed (state m)) = {}"
    by (simp_all add: listed_step)
  from process_page_disjoint [OF interrupted(3) this, where tp = tp and tps = tps]
  show ?case using interrupted(1,2) by (simp add: pages_loop_stop)
next
  case (continued page m)
  from continued(1,5,6) have
    "distinct (page_ids e sp fp page @ listed e sp fp tps (page + 1))"
    "set (page_ids e sp fp page @ listed e sp fp tps (page + 1)) \<inter> set (failed (state m)) = {}"
    by (simp_all add: listed_step)
  from process_page_disjoint [OF continued(4) this, where tp = tp and tps = tps]
  have a: "set (downloaded (state (snd (process_page e sp fp tp tps page m)))) \<inter>
      set (failed (state (snd (process_page e sp fp tp tps page m)))) = {}"
    "set (listed e sp fp tps (page + 1)) \<inter>
      set (failed (state (snd (process_page e sp fp tp tps page m)))) = {}"
    by simp_all
  have "distinct (listed e sp fp tps (page + 1))"
    using continued(1,5) by (simp add: listed_step)
  from continued(3) [OF a(1) this a(2)] continued(1,2) show ?case
    by (simp add: pages_loop_step)
qed


subsection \<open>One item\<close>

lemma get_photo_metadata_log:
  "\<exists>l. log_file (snd (get_photo_metadata e i m)) = log_file m @ l"
  by (auto simp: get_photo_metadata_def split: sum.splits exn.splits prod.splits)

lemma download_photo_log:
  "log_file (snd (download_photo e i u f m)) =
     log_file m @ (if exists f m then [SkippingExisting f]
       else Downloading f # (case requests_get e u of
              Transferred \<Rightarrow> [Success f]
            | ErrorBeforeOpen x \<Rightarrow> [FailedToDownload f x]
            | ErrorAfterOpen x \<Rightarrow> [FailedToDownload f x]))"
  by (simp add: download_photo_def Let_def split: transfer.splits)

text \<open>An item that is not in the complete list is taken through URL resolution, and
  through \<open>download_photo\<close> when a URL is found, whatever the metadata queries did.\<close>

lemma process_photo_attempt:
  assumes "pid p \<notin> set (downloaded (state m))"
  shows "case get_download_url p of
       Some (c # cs) \<Rightarrow>
         Downloading (destination p) \<in> set (new_lines m (snd (process_photo e page tp i p m))) \<or>
         SkippingExisting (destination p) \<in> set (new_lines m (snd (process_photo e page tp i p m)))
     | _ \<Rightarrow> WarnNoUrl (pid p) \<in> set (new_lines m (snd (process_photo e page tp i p m)))"
proof -
  obtain l where l: "log_file (snd (get_photo_metadata e (pid p)
      (log (PhotoProgress (int (length (downloaded (state m))) + i) tp (pid p)
         (case title p of None \<Rightarrow> ''untitled'' | Some t \<Rightarrow> t)) m))) =
      log_file m @ PhotoProgress (int (length (downloaded (state m))) + i) tp (pid p)
         (case title p of None \<Rightarrow> ''untitled'' | Some t \<Rightarrow> t) # l"
    using get_photo_metadata_log [of e "pid p"
        "log (PhotoProgress (int (length (downloaded (state m))) + i) tp (pid p)
         (case title p of None \<Rightarrow> ''untitled'' | Some t \<Rightarrow> t)) m"]
    by auto
  show ?thesis
    using assms l
    by (simp add: process_photo_def Let_def case_prod_beta new_lines_def destination_def
        download_photo_log
        split: option.splits list.splits)
qed

lemma get_photo_metadata_FlickrError_only:
  assumes "getInfo e i = Inr d"
    and "\<forall>msg. getExif e i \<noteq> Inl (OtherError msg)"
    and "\<forall>msg. getComments e i \<noteq> Inl (OtherError msg)"
  shows "fst (get_photo_metadata e i m) =
      Some \<lparr>info = d, exif = optional (getExif e i), comments = optional (getComments e i),
        list_info = None\<rparr>"
    and "log_file (snd (get_photo_metadata e i m)) =
      log_file m @ warning (WarnExif i) (getExif e i) @ warning (WarnComments i) (getComments e i)"
    and "metadata_dir (snd (get_photo_metadata e i m)) = metadata_dir m"
  using assms
  by (auto simp: get_photo_metadata_def optional_def warning_def
      split: sum.splits exn.splits prod.splits)

lemma get_photo_metadata_OtherError:
  assumes "getInfo e i = Inr d"
    and "(\<exists>msg. getExif e i = Inl (OtherError msg)) \<or> (\<exists>msg. getComments e i = Inl (OtherError msg))"
  shows "fst (get_photo_metadata e i m) = None"
  using assms
  by (auto simp: get_photo_metadata_def split: sum.splits exn.splits prod.splits)

lemma process_photo_metadata_dir:
  assumes "pid p \<notin> set (downloaded (state m))"
  shows "metadata_dir (snd (process_photo e page tp i p m)) =
    (case fst (get_photo_metadata e (pid p)
         (log (PhotoProgress (int (length (downloaded (state m))) + i) tp (pid p)
           (case title p of None \<Rightarrow> ''untitled'' | Some t \<Rightarrow> t)) m)) of
       Some d \<Rightarrow> (metadata_dir m)(pid p \<mapsto> d\<lparr>list_info := Some p\<rparr>)
     | None \<Rightarrow> metadata_dir m)"
  using assms
  by (simp add: process_photo_def Let_def case_prod_beta split: option.splits list.splits)

lemma process_photo_no_metadata_warning:
  assumes "pid p \<notin> set (downloaded (state m))"
    and "\<And>m'. fst (get_photo_metadata e (pid p) m') = None"
  shows "WarnNoMetadata (pid p) \<in> set (new_lines m (snd (process_photo e page tp i p m)))"
proof -
  let ?m1 = "log (PhotoProgress (int (length (downloaded (state m))) + i) tp (pid p)
         (case title p of None \<Rightarrow> ''untitled'' | Some t \<Rightarrow> t)) m"
  obtain l where l: "log_file (snd (get_photo_metadata e (pid p) ?m1)) = log_file ?m1 @ l"
    using get_photo_metadata_log by blast
  show ?thesis
    using assms l
    by (simp add: process_photo_def Let_def case_prod_beta new_lines_def download_photo_log
        split: option.splits list.splits)
qed









subsection \<open>Page failure\<close>

text \<open>
  C1. On the five-page collection whose page 3 times out, the run returns normally; it
  logs the error, saves the checkpoint and sleeps five seconds; it works on page 3
  once and goes on with pages 4 and 5, whose items set the last page to 5. The item of
  page 3 is in neither list. A second run against the healthy service starts at page 6:
  it does not request page 3 either, and the checkpoint and the missing file stay as
  they were.
\<close>

theorem failed_page_is_not_retried:
  "fst (download_library flaky fresh) = Normal \<and>
   ErrorOnPage 3 (OtherError ''timed out'') \<in> set (log_file (snd (download_library flaky fresh))) \<and>
   count_list (log_file (snd (download_library flaky fresh))) (ProcessingPage 3 5) = 1 \<and>
   slept (snd (download_library flaky fresh)) = [500, 500, 5000, 500, 500] \<and>
   state_file (snd (download_library flaky fresh)) =
     Some \<lparr>last_page = 5, downloaded = [''p1'', ''p2'', ''p4'', ''p5''], failed = []\<rparr> \<and>
   fst (download_library (service (listing five_pages))
          (init (snd (download_library flaky fresh)))) = Normal \<and>
   count_list (log_file (snd (download_library (service (listing five_pages))
          (init (snd (download_library flaky fresh)))))) (ProcessingPage 3 5) = 1 \<and>
   state_file (snd (download_library (service (listing five_pages))
          (init (snd (download_library flaky fresh))))) =
     Some \<lparr>last_page = 5, downloaded = [''p1'', ''p2'', ''p4'', ''p5''], failed = []\<rparr> \<and>
   photos_dir (snd (download_library (service (listing five_pages))
          (init (snd (download_library flaky fresh))))) ''p3_t.jpg'' = None"
  by (simp add: run_defs scenario_defs)

subsection \<open>The last page of the checkpoint\<close>

text \<open>
  C2. On the one-page collection of items \<open>a\<close> and \<open>b\<close>, interrupted in the sleep after
  \<open>a\<close>, the checkpoint on disk already names page 1 as the last page while \<open>b\<close> has not
  been attempted. The next run resumes at page 2, past the end: it returns normally
  and \<open>b\<close> is in neither list, has no metadata and no file.
\<close>

theorem last_page_set_before_page_is_done:
  "fst (download_library interrupted fresh) = KeyboardInterrupt \<and>
   state_file (snd (download_library interrupted fresh)) =
     Some \<lparr>last_page = 1, downloaded = [''a''], failed = []\<rparr> \<and>
   fst (download_library (service (listing one_page))
          (init (snd (download_library interrupted fresh)))) = Normal \<and>
   state_file (snd (download_library (service (listing one_page))
          (init (snd (download_library interrupted fresh))))) =
     Some \<lparr>last_page = 1, downloaded = [''a''], failed = []\<rparr> \<and>
   metadata_dir (snd (download_library (service (listing one_page))
          (init (snd (download_library interrupted fresh))))) ''b'' = None \<and>
   photos_dir (snd (download_library (service (listing one_page))
          (init (snd (download_library interrupted fresh))))) ''b_t.jpg'' = None"
  by (simp add: run_defs scenario_defs)

subsection \<open>End-to-end scenario\<close>

text \<open>
  C4. On the two-page, three-item collection whose item 2 has no URL, the run ends with
  the checkpoint the scenario expects (items 1 and 3 complete, item 2 failed, last page
  2), but with the counters downloaded 2, skipped 0, failed 0, total 3: the failed
  counter is incremented in \<open>download_photo\<close> only, which an item without URL never
  reaches.
\<close>

theorem scenario_counts_no_failure:
  "fst (download_library (service (listing two_pages)) fresh) = Normal \<and>
   stats (snd (download_library (service (listing two_pages)) fresh)) =
     \<lparr>n_downloaded = 2, n_failed = 0, n_skipped = 0, n_total = 3\<rparr> \<and>
   state_file (snd (download_library (service (listing two_pages)) fresh)) =
     Some \<lparr>last_page = 2, downloaded = [''1'', ''3''], failed = [''2'']\<rparr>"
  by (simp add: run_defs scenario_defs)

subsection \<open>Checkpoint lists\<close>

text \<open>
  C3 (amended). In every run, whatever its outcome, the complete and the failed list of
  the checkpoint on disk are extended at the end only: nothing is removed. They stay
  disjoint when they are disjoint at the start and the run enumerates every identifier
  at most once and none that is in the failed list: the run skips the identifiers of
  the complete list only, so a failed identifier that is listed again is attempted
  again.
\<close>

theorem lists_grow_and_stay_apart:
  "prefix (downloaded (load_state m)) (downloaded (load_state (snd (download_library e m)))) \<and>
   prefix (failed (load_state m)) (failed (load_state (snd (download_library e m)))) \<and>
   (set (downloaded (load_state m)) \<inter> set (failed (load_state m)) = {} \<and>
    distinct (enumerated e m) \<and> set (enumerated e m) \<inter> set (failed (load_state m)) = {} \<longrightarrow>
    set (downloaded (load_state (snd (download_library e m)))) \<inter>
      set (failed (load_state (snd (download_library e m)))) = {})"
proof (cases "getPhotos e 1")
  case (Inl x)
  then have "state_file (snd (download_library e m)) = state_file m"
    by (simp add: download_library_def Let_def)
  then have "load_state (snd (download_library e m)) = load_state m"
    by (rule load_state_cong)
  then show ?thesis by simp
next
  case (Inr fp)
  let ?sp = "last_page (load_state m) + 1"
  let ?r = "pages_loop e ?sp fp (total fp) (pages fp) ?sp (at_loop fp m)"
  note d = download_library_Inr [OF Inr, of m]
  have "load_state (at_loop fp m) = state (at_loop fp m)"
    by (simp add: load_state_cong [of "at_loop fp m" m])
  from pages_loop_synced [OF this]
  have "load_state (snd ?r) = state (snd ?r)" .
  then have ls: "load_state (snd (download_library e m)) = state (snd ?r)"
    using load_state_cong [of "snd (download_library e m)" "snd ?r"] d(3) by simp
  have g: "prefix (downloaded (load_state m)) (downloaded (state (snd ?r)))"
    "prefix (failed (load_state m)) (failed (state (snd ?r)))"
    using pages_loop_prefix [where m = "at_loop fp m" and e = e and sp = ?sp and fp = fp
        and tp = "total fp" and tps = "pages fp" and page = ?sp]
    by simp_all
  have "set (downloaded (state (snd ?r))) \<inter> set (failed (state (snd ?r))) = {}"
    if "set (downloaded (load_state m)) \<inter> set (failed (load_state m)) = {}"
      and "distinct (enumerated e m)"
      and "set (enumerated e m) \<inter> set (failed (load_state m)) = {}"
    by (rule pages_loop_disjoint) (use that Inr in \<open>simp_all add: enumerated_def\<close>)
  with g ls show ?thesis by simp
qed

text \<open>The theorem on the two-page collection, started on an empty disk.\<close>

theorem lists_grow_and_stay_apart_witness:
  "set (downloaded (load_state fresh)) \<inter> set (failed (load_state fresh)) = {} \<and>
   distinct (enumerated (service (listing two_pages)) fresh) \<and>
   set (enumerated (service (listing two_pages)) fresh) \<inter> set (failed (load_state fresh)) = {} \<and>
   set (downloaded (load_state (snd (download_library (service (listing two_pages)) fresh)))) \<inter>
     set (failed (load_state (snd (download_library (service (listing two_pages)) fresh)))) = {}"
proof -
  have h: "set (downloaded (load_state fresh)) \<inter> set (failed (load_state fresh)) = {} \<and>
    distinct (enumerated (service (listing two_pages)) fresh) \<and>
    set (enumerated (service (listing two_pages)) fresh) \<inter> set (failed (load_state fresh)) = {}"
    by (simp add: enumerated_def listed.simps page_ids_def page_request_def load_state_def
        scenario_defs)
  with lists_grow_and_stay_apart [of fresh "service (listing two_pages)"] show ?thesis
    by blast
qed

text \<open>
  The claim as stated fails. Item \<open>x\<close> is alone in its collection and its transfer is
  refused: the first run records it as failed. A newer upload then moves \<open>x\<close> to page 2;
  the second run starts with disjoint lists at page 2, attempts \<open>x\<close> again, succeeds and
  adds it to the complete list; \<open>x\<close> is in both lists.
\<close>

theorem retried_item_in_both_lists:
  "set (downloaded (load_state (snd (download_library (refused before_upload) fresh)))) \<inter>
     set (failed (load_state (snd (download_library (refused before_upload) fresh)))) = {} \<and>
   ''x'' \<in> set (downloaded (load_state (snd (download_library (service (listing after_upload))
       (init (snd (download_library (refused before_upload) fresh))))))) \<and>
   ''x'' \<in> set (failed (load_state (snd (download_library (service (listing after_upload))
       (init (snd (download_library (refused before_upload) fresh)))))))"
  by (simp add: run_defs scenario_defs)

subsection \<open>Transfer errors\<close>




subsection \<open>Running twice\<close>

text \<open>
  C6. When a run of a new downloader returns normally, a second run of a new downloader
  against the same service, on the disk the first one left, returns normally too; it
  leaves the photo files and the metadata files as they are, leaves the complete and
  the failed list of the checkpoint on disk as they are, and transfers nothing. And a
  fetch whose destination file exists returns \<open>True\<close>, counts one skipped item, logs
  that it skips and leaves the files as they are.
\<close>

theorem second_run_changes_nothing:
  assumes ok: "fst (download_library e (init m)) = Normal"
  shows "fst (download_library e (init (snd (download_library e (init m))))) = Normal \<and>
    photos_dir (snd (download_library e (init (snd (download_library e (init m)))))) =
      photos_dir (snd (download_library e (init m))) \<and>
    metadata_dir (snd (download_library e (init (snd (download_library e (init m)))))) =
      metadata_dir (snd (download_library e (init m))) \<and>
    downloaded (load_state (snd (download_library e (init (snd (download_library e (init m))))))) =
      downloaded (load_state (snd (download_library e (init m)))) \<and>
    failed (load_state (snd (download_library e (init (snd (download_library e (init m))))))) =
      failed (load_state (snd (download_library e (init m)))) \<and>
    n_downloaded (stats (snd (download_library e (init (snd (download_library e (init m))))))) = 0 \<and>
    (exists f m' \<longrightarrow>
      fst (download_photo e i u f m') = True \<and>
      photos_dir (snd (download_photo e i u f m')) = photos_dir m' \<and>
      stats (snd (download_photo e i u f m')) = (stats m')\<lparr>n_skipped := n_skipped (stats m') + 1\<rparr> \<and>
      log_file (snd (download_photo e i u f m')) = log_file m' @ [SkippingExisting f])"
proof -
  let ?d1 = "download_library e (init m)"
  let ?m' = "init (snd ?d1)"
  let ?d2 = "download_library e ?m'"
  obtain fp where fp: "getPhotos e 1 = Inr fp"
    using ok download_library_Inl [of e _ "init m"] by (cases "getPhotos e 1") auto
  let ?s0 = "load_state (init m)"
  let ?sp1 = "last_page ?s0 + 1"
  let ?r1 = "pages_loop e ?sp1 fp (total fp) (pages fp) ?sp1 (at_loop fp (init m))"
  note d1 = download_library_Inr [OF fp, of "init m"]
  have r1: "fst ?r1 = Normal" using ok d1(1) by simp
  have "load_state (at_loop fp (init m)) = state (at_loop fp (init m))"
    by (simp add: load_state_cong [of "at_loop fp (init m)" "init m"])
  from pages_loop_synced [OF this]
  have sy1: "load_state (snd ?r1) = state (snd ?r1)" .
  have ls1: "load_state (snd ?d1) = state (snd ?r1)"
    using sy1 load_state_cong [of "snd ?d1" "snd ?r1"] d1(3) by simp
  have ls1': "load_state ?m' = state (snd ?r1)"
    using ls1 load_state_cong [of ?m' "snd ?d1"] by simp
  let ?s1 = "state (snd ?r1)"
  have lower: "last_page ?s0 \<le> last_page ?s1"
    by (rule pages_loop_lower) simp_all
  have settled: "\<forall>p pd. ?sp1 \<le> p \<and> p < max ?sp1 (pages fp + 1) \<and> last_page ?s1 < p \<and>
      page_request e ?sp1 fp p = Inr pd \<longrightarrow>
      (\<forall>ph \<in> set (photo pd). pid ph \<in> set (downloaded ?s1))"
    by (rule pages_loop_settled [OF _ r1]) (intro allI impI, elim conjE, simp)
  let ?sp2 = "last_page ?s1 + 1"
  let ?r2 = "pages_loop e ?sp2 fp (total fp) (pages fp) ?sp2 (at_loop fp ?m')"
  have d2: "fst ?d2 = fst ?r2" "state (snd ?d2) = state (snd ?r2)"
    "state_file (snd ?d2) = state_file (snd ?r2)" "stats (snd ?d2) = stats (snd ?r2)"
    "photos_dir (snd ?d2) = photos_dir (snd ?r2)" "metadata_dir (snd ?d2) = metadata_dir (snd ?r2)"
    using download_library_Inr [OF fp, of ?m'] by (simp_all add: ls1')
  have q: "\<forall>p pd. ?sp2 \<le> p \<and> p \<le> pages fp \<and> page_request e ?sp2 fp p = Inr pd \<longrightarrow>
      (\<forall>ph \<in> set (photo pd). pid ph \<in> set (downloaded (state (at_loop fp ?m'))))"
  proof (intro allI impI, elim conjE)
    fix p pd
    assume b: "?sp2 \<le> p" "p \<le> pages fp" "page_request e ?sp2 fp p = Inr pd"
    from b(3) have "page_request e ?sp1 fp p = Inr pd"
      by (simp add: page_request_first [OF fp])
    moreover from b(1) lower have "?sp1 \<le> p" by simp
    moreover from b(2) have "p < max ?sp1 (pages fp + 1)" by simp
    moreover from b(1) have "last_page ?s1 < p" by simp
    ultimately have "\<forall>ph \<in> set (photo pd). pid ph \<in> set (downloaded ?s1)"
      using settled by blast
    then show "\<forall>ph \<in> set (photo pd). pid ph \<in> set (downloaded (state (at_loop fp ?m')))"
      by (simp add: ls1')
  qed
  note quiet = pages_loop_quiet [OF q, where tp = "total fp"]
  have "load_state (at_loop fp ?m') = state (at_loop fp ?m')"
    by (simp add: load_state_cong [of "at_loop fp ?m'" ?m'])
  from pages_loop_synced [OF this]
  have sy2: "load_state (snd ?r2) = state (snd ?r2)" .
  have ls2: "load_state (snd ?d2) = state (snd ?r2)"
    using sy2 load_state_cong [of "snd ?d2" "snd ?r2"] d2(3) by simp
  show ?thesis
    using quiet d2 d1 ls1 ls2 ls1' download_photo_existing [of f m' e i u] by simp
qed

text \<open>The theorem on the two-page collection, and on the file of item 1 after the first
  run.\<close>

theorem second_run_changes_nothing_witness:
  "fst (download_library (service (listing two_pages)) (init fresh)) = Normal \<and>
   fst (download_library (service (listing two_pages))
     (init (snd (download_library (service (listing two_pages)) (init fresh))))) = Normal \<and>
   downloaded (load_state (snd (download_library (service (listing two_pages))
     (init (snd (download_library (service (listing two_pages)) (init fresh))))))) =
     downloaded (load_state (snd (download_library (service (listing two_pages)) (init fresh)))) \<and>
   n_downloaded (stats (snd (download_library (service (listing two_pages))
     (init (snd (download_library (service (listing two_pages)) (init fresh))))))) = 0 \<and>
   exists ''1_t.jpg'' (snd (download_library (service (listing two_pages)) (init fresh))) \<and>
   fst (download_photo (service (listing two_pages)) ''1'' ''http://a/1'' ''1_t.jpg''
     (snd (download_library (service (listing two_pages)) (init fresh)))) = True"
proof -
  have h: "fst (download_library (service (listing two_pages)) (init fresh)) = Normal"
    by (simp add: run_defs scenario_defs)
  have x: "exists ''1_t.jpg'' (snd (download_library (service (listing two_pages)) (init fresh)))"
    by (simp add: run_defs scenario_defs)
  from second_run_changes_nothing [OF h, where f = "''1_t.jpg''"
      and m' = "snd (download_library (service (listing two_pages)) (init fresh))"
      and i = "''1''" and u = "''http://a/1''"] h x
  show ?thesis by blast
qed

subsection \<open>Optional metadata queries\<close>

text \<open>
  C7 (amended). For an item that is not in the complete list and whose core record is
  fetched, when each of the two optional queries either succeeds or raises a
  \<open>FlickrError\<close>: the aggregation returns a document; a query that raised is stored as
  null; a \<open>FlickrError\<close> whose text contains "not found" logs nothing, any other
  \<open>FlickrError\<close> logs one warning; the document is written with the listing entry; and
  the item goes on to URL resolution and, when a URL is found, to the asset download.
  A failure that is not a \<open>FlickrError\<close> is not covered: it fails the aggregation.
\<close>

theorem optional_query_failures:
  assumes "getInfo e (pid p) = Inr d"
    and "\<forall>msg. getExif e (pid p) \<noteq> Inl (OtherError msg)"
    and "\<forall>msg. getComments e (pid p) \<noteq> Inl (OtherError msg)"
    and "pid p \<notin> set (downloaded (state m))"
  shows "fst (get_photo_metadata e (pid p) m) =
      Some \<lparr>info = d, exif = optional (getExif e (pid p)),
        comments = optional (getComments e (pid p)), list_info = None\<rparr> \<and>
    log_file (snd (get_photo_metadata e (pid p) m)) =
      log_file m @ warning (WarnExif (pid p)) (getExif e (pid p)) @
        warning (WarnComments (pid p)) (getComments e (pid p)) \<and>
    metadata_dir (snd (process_photo e page tp i p m)) =
      (metadata_dir m)(pid p \<mapsto>
        \<lparr>info = d, exif = optional (getExif e (pid p)),
          comments = optional (getComments e (pid p)), list_info = Some p\<rparr>) \<and>
    (case get_download_url p of
       Some (c # cs) \<Rightarrow>
         Downloading (destination p) \<in> set (new_lines m (snd (process_photo e page tp i p m))) \<or>
         SkippingExisting (destination p) \<in> set (new_lines m (snd (process_photo e page tp i p m)))
     | _ \<Rightarrow> WarnNoUrl (pid p) \<in> set (new_lines m (snd (process_photo e page tp i p m))))"
  using get_photo_metadata_FlickrError_only [OF assms(1-3)]
    process_photo_metadata_dir [OF assms(4)] process_photo_attempt [OF assms(4)]
  by simp

text \<open>The theorem on item \<open>a\<close> with "Photo not found" for the EXIF data and "Permission
  denied" for the comments: both null, one warning, for the comments.\<close>

theorem optional_query_failures_witness:
  "fst (get_photo_metadata exif_absent ''a'' fresh) =
     Some \<lparr>info = ''info'', exif = None, comments = None, list_info = None\<rparr> \<and>
   log_file (snd (get_photo_metadata exif_absent ''a'' fresh)) =
     [WarnComments ''a'' (FlickrError ''Error: 2: Permission denied'')] \<and>
   Downloading ''a_t.jpg'' \<in> set (new_lines fresh
     (snd (process_photo exif_absent 1 2 1 (item ''a'' (Some ''http://a/a'')) fresh)))"
proof -
  let ?p = "item ''a'' (Some ''http://a/a'')"
  have h: "getInfo exif_absent (pid ?p) = Inr ''info''"
    "\<forall>msg. getExif exif_absent (pid ?p) \<noteq> Inl (OtherError msg)"
    "\<forall>msg. getComments exif_absent (pid ?p) \<noteq> Inl (OtherError msg)"
    "pid ?p \<notin> set (downloaded (state fresh))"
    by (simp_all add: exif_absent_def service_def item_def fresh_def)
  have d: "destination ?p = ''a_t.jpg''" "get_download_url ?p = Some ''http://a/a''"
    "pid ?p = ''a''"
    by (simp_all add: destination_def item_def make_filename_def get_file_extension_def
        sanitize_filename_def invalid_chars_def get_download_url_def)
  have w: "optional (getExif exif_absent ''a'') = None"
    "optional (getComments exif_absent ''a'') = None"
    "warning (WarnExif ''a'') (getExif exif_absent ''a'') = []"
    "warning (WarnComments ''a'') (getComments exif_absent ''a'') =
       [WarnComments ''a'' (FlickrError ''Error: 2: Permission denied'')]"
    "log_file fresh = []"
    by (simp_all add: optional_def warning_def exif_absent_def service_def lower_def
        lower_char_def fresh_def)
  have s: "\<not> SkippingExisting ''a_t.jpg'' \<in> set (new_lines fresh
     (snd (process_photo exif_absent 1 2 1 ?p fresh)))"
    by (simp add: new_lines_def run_defs scenario_defs)
  from optional_query_failures [OF h, where page = 1 and tp = 2 and i = 1] d w s
  show ?thesis by simp
qed

text \<open>
  The claim as stated fails. A failure of the EXIF query that is not a "not found"
  one, here a connection reset in the transport, is neither logged as a warning nor
  stored as null: the aggregation returns no document and logs an error.
\<close>

theorem transport_error_fails_aggregation:
  "fst (get_photo_metadata exif_unreachable ''a'' fresh) = None \<and>
   log_file (snd (get_photo_metadata exif_unreachable ''a'' fresh)) =
     [ErrorGettingMetadata ''a'' (OtherError ''connection reset'')]"
  by (simp add: get_photo_metadata_def exif_unreachable_def service_def fresh_def log_def)

text \<open>
  C10. For an item that is not in the complete list and whose core record is fetched,
  when the EXIF query or the comments query raises an exception that is not a
  \<open>FlickrError\<close>: the aggregation returns no document, the item step leaves the
  metadata directory as it is and logs that it has no metadata, and the item still
  goes on to URL resolution and, when a URL is found, to the asset download; its
  identifier ends in the complete or the failed list.
\<close>

theorem transport_error_drops_document:
  assumes "getInfo e (pid p) = Inr d"
    and "(\<exists>msg. getExif e (pid p) = Inl (OtherError msg)) \<or>
         (\<exists>msg. getComments e (pid p) = Inl (OtherError msg))"
    and "pid p \<notin> set (downloaded (state m))"
  shows "fst (get_photo_metadata e (pid p) m') = None \<and>
    metadata_dir (snd (process_photo e page tp i p m)) = metadata_dir m \<and>
    WarnNoMetadata (pid p) \<in> set (new_lines m (snd (process_photo e page tp i p m))) \<and>
    (case get_download_url p of
       Some (c # cs) \<Rightarrow>
         Downloading (destination p) \<in> set (new_lines m (snd (process_photo e page tp i p m))) \<or>
         SkippingExisting (destination p) \<in> set (new_lines m (snd (process_photo e page tp i p m)))
     | _ \<Rightarrow> WarnNoUrl (pid p) \<in> set (new_lines m (snd (process_photo e page tp i p m)))) \<and>
    (pid p \<in> set (downloaded (state (snd (process_photo e page tp i p m)))) \<or>
     pid p \<in> set (failed (state (snd (process_photo e page tp i p m)))))"
proof -
  have n: "\<And>m'. fst (get_photo_metadata e (pid p) m') = None"
    by (rule get_photo_metadata_OtherError [OF assms(1,2)])
  have "pid p \<in> set (downloaded (state (snd (process_photo e page tp i p m)))) \<or>
     pid p \<in> set (failed (state (snd (process_photo e page tp i p m))))"
    using process_photo_state(3) [OF assms(3), where e = e and page = page and tp = tp and i = i]
    by auto
  then show ?thesis
    using n process_photo_metadata_dir [OF assms(3), where e = e and page = page and tp = tp and i = i]
      process_photo_no_metadata_warning [OF assms(3) n]
      process_photo_attempt [OF assms(3)]
    by simp
qed

text \<open>The theorem on item \<open>a\<close> with the EXIF query reset in the transport.\<close>

theorem transport_error_drops_document_witness:
  "fst (get_photo_metadata exif_unreachable ''a'' fresh) = None \<and>
   metadata_dir (snd (process_photo exif_unreachable 1 2 1
     (item ''a'' (Some ''http://a/a'')) fresh)) ''a'' = None \<and>
   Downloading ''a_t.jpg'' \<in> set (new_lines fresh
     (snd (process_photo exif_unreachable 1 2 1 (item ''a'' (Some ''http://a/a'')) fresh))) \<and>
   ''a'' \<in> set (downloaded (state (snd (process_photo exif_unreachable 1 2 1
     (item ''a'' (Some ''http://a/a'')) fresh))))"
proof -
  let ?p = "item ''a'' (Some ''http://a/a'')"
  have h: "getInfo exif_unreachable (pid ?p) = Inr ''info''"
    "(\<exists>msg. getExif exif_unreachable (pid ?p) = Inl (OtherError msg)) \<or>
     (\<exists>msg. getComments exif_unreachable (pid ?p) = Inl (OtherError msg))"
    "pid ?p \<notin> set (downloaded (state fresh))"
    by (simp_all add: exif_unreachable_def service_def item_def fresh_def)
  have d: "destination ?p = ''a_t.jpg''" "get_download_url ?p = Some ''http://a/a''"
    "pid ?p = ''a''" "metadata_dir fresh = Map.empty"
    by (simp_all add: destination_def item_def make_filename_def get_file_extension_def
        sanitize_filename_def invalid_chars_def get_download_url_def fresh_def)
  have s: "\<not> SkippingExisting ''a_t.jpg'' \<in> set (new_lines fresh
     (snd (process_photo exif_unreachable 1 2 1 ?p fresh)))"
    "\<not> ''a'' \<in> set (failed (state (snd (process_photo exif_unreachable 1 2 1 ?p fresh))))"
    by (simp_all add: new_lines_def run_defs scenario_defs)
  from transport_error_drops_document [OF h, where m' = fresh and page = 1
      and tp = 2 and i = 1] d s
  show ?thesis by simp
qed

subsection \<open>Destination name\<close>




subsection \<open>Start-up\<close>

text \<open>
  C9 (amended). When the API key is \<open>YOUR_API_KEY_HERE\<close> or the API secret is
  \<open>YOUR_API_SECRET_HERE\<close>, running the file ends with exit code 1 after the three
  output directories have been created while the module was loaded, and with nothing
  else touched: the state file, the photo files, the metadata files and the log file
  are as before, and nothing has slept.
\<close>

theorem placeholder_credentials_exit:
  assumes "api_key cfg = ''YOUR_API_KEY_HERE'' \<or> api_secret cfg = ''YOUR_API_SECRET_HERE''"
  shows "fst (script cfg e m) = 1 \<and>
    dirs (snd (script cfg e m)) = dirs m \<union> {DOWNLOAD_DIR, METADATA_DIR, PHOTOS_DIR} \<and>
    state_file (snd (script cfg e m)) = state_file m \<and>
    photos_dir (snd (script cfg e m)) = photos_dir m \<and>
    metadata_dir (snd (script cfg e m)) = metadata_dir m \<and>
    log_file (snd (script cfg e m)) = log_file m \<and>
    slept (snd (script cfg e m)) = slept m"
  using assms by (auto simp: script_def main_def create_directories_def mkdir_def)

text \<open>The theorem on the two placeholders, on an empty disk.\<close>

theorem placeholder_credentials_exit_witness:
  "fst (script placeholders (service (listing one_page)) fresh) = 1 \<and>
   dirs (snd (script placeholders (service (listing one_page)) fresh)) =
     {DOWNLOAD_DIR, METADATA_DIR, PHOTOS_DIR} \<and>
   state_file (snd (script placeholders (service (listing one_page)) fresh)) = None \<and>
   log_file (snd (script placeholders (service (listing one_page)) fresh)) = []"
proof -
  have h: "api_key placeholders = ''YOUR_API_KEY_HERE'' \<or>
    api_secret placeholders = ''YOUR_API_SECRET_HERE''"
    by (simp add: placeholders_def)
  from placeholder_credentials_exit [OF h, of "service (listing one_page)" fresh]
  show ?thesis by (simp add: fresh_def)
qed

text \<open>The claim as stated fails: with the placeholders the process exits with code 1,
  but on a disk without directories the output directory has been created.\<close>

theorem directories_created_before_check:
  "fst (script placeholders (service (listing one_page)) fresh) = 1 \<and>
   dirs fresh = {} \<and>
   ''/YOURFOLDERPATH'' \<in> dirs (snd (script placeholders (service (listing one_page)) fresh))"
  by (simp add: script_def main_def create_directories_def mkdir_def placeholders_def fresh_def
      DOWNLOAD_DIR_def)

text \<open>
  The credentials the file is shipped with are \<open>YOUR_KEY\<close> and \<open>YOUR_SECRET\<close>, not the
  strings the check compares with: with them the check passes and the run goes on to
  authenticate. With a service that rejects the login it ends with exit code 1 and a
  log file of four lines.
\<close>

lemma shipped_credentials_pass_the_check:
  "fst (script shipped ((service (listing one_page))\<lparr>login := Inl (FlickrError ''Invalid API Key'')\<rparr>)
      fresh) = 1 \<and>
   log_file (snd (script shipped
      ((service (listing one_page))\<lparr>login := Inl (FlickrError ''Invalid API Key'')\<rparr>) fresh)) =
     [Authenticating, AuthenticationSuccessful, FatalError (FlickrError ''Invalid API Key''),
      Traceback]"
  by (simp add: script_def main_def create_directories_def mkdir_def shipped_def API_KEY_def
      API_SECRET_def authenticate_def init_def log_def service_def fresh_def Let_def)

end
